theory Spec2Isabelle
  imports Main "HOL-Library.Char_ord" "HOL-Library.List_Lexorder"
begin

section \<open>JavaScript strings and arrays\<close>

text \<open>
  Strings are modelled as \<open>string\<close> (lists of 8-bit characters). The source only inspects
  ASCII characters of its strings (the separator \<open>/\<close>, the dot, the backslash, the
  letters of the six image extensions), so a non-ASCII code point is just an opaque run of
  characters here.
\<close>

definition startsWith :: "string \<Rightarrow> string \<Rightarrow> bool" where
  "startsWith s p = (take (length p) s = p)"

definition endsWith :: "string \<Rightarrow> string \<Rightarrow> bool" where
  "endsWith s p = (length p \<le> length s \<and> drop (length s - length p) s = p)"

text \<open>
  \<open>String.prototype.toLowerCase\<close>, on the ASCII letters. The result is only compared
  with the six image extensions, and no character outside ASCII is lowered to one of
  their letters.
\<close>

definition lower_char :: "char \<Rightarrow> char" where
  "lower_char c =
     (let n = (of_char c :: nat)
      in if 65 \<le> n \<and> n \<le> 90 then char_of (n + 32) else c)"

definition toLowerCase :: "string \<Rightarrow> string" where
  "toLowerCase s = map lower_char s"

text \<open>\<open>s.split(c)\<close> for a one-character separator: never the empty array.\<close>

fun split_on :: "char \<Rightarrow> string \<Rightarrow> string list" where
  "split_on c [] = [[]]"
| "split_on c (x # xs) =
     (if x = c then [] # split_on c xs
      else (case split_on c xs of [] \<Rightarrow> [[x]] | w # ws \<Rightarrow> (x # w) # ws))"

text \<open>\<open>segs.join('/')\<close>.\<close>

fun join_slash :: "string list \<Rightarrow> string" where
  "join_slash [] = []"
| "join_slash [s] = s"
| "join_slash (s # t # ss) = s @ CHR ''/'' # join_slash (t # ss)"

text \<open>Decimal rendering of a non-negative integer, as a template literal prints it.\<close>

fun num_str :: "nat \<Rightarrow> string" where
  "num_str n =
     (if n < 10 then [char_of (48 + n)]
      else num_str (n div 10) @ [char_of (48 + n mod 10)])"

declare num_str.simps [simp del]

text \<open>
  \<open>Array.from(new Set(xs))\<close>: a JavaScript \<open>Set\<close> iterates in insertion order, and
  adding an element that is already present changes nothing.
\<close>

definition set_add :: "'a list \<Rightarrow> 'a \<Rightarrow> 'a list" where
  "set_add acc x = (if x \<in> set acc then acc else acc @ [x])"

definition array_from_set :: "'a list \<Rightarrow> 'a list" where
  "array_from_set xs = foldl set_add [] xs"

section \<open>The POSIX flavour of Node's \<open>path\<close> module\<close>

text \<open>
  The repository calls \<open>path.join\<close>, \<open>path.resolve\<close>, \<open>path.relative\<close>,
  \<open>path.basename\<close> and \<open>path.extname\<close>. Node implements them as character loops;
  the definitions below state the same results segment by segment.
\<close>

definition isAbsolute :: "string \<Rightarrow> bool" where
  "isAbsolute p = (p \<noteq> [] \<and> hd p = CHR ''/'')"

text \<open>
  One step of \<open>normalizeString\<close>: empty and \<open>.\<close> segments vanish, \<open>..\<close> removes the
  segment before it unless there is none or it is itself \<open>..\<close>; then it is kept only
  when the path may climb above its start.
\<close>

definition norm_step :: "bool \<Rightarrow> string list \<Rightarrow> string \<Rightarrow> string list" where
  "norm_step allowAboveRoot res seg =
     (if seg = [] \<or> seg = ''.'' then res
      else if seg = ''..'' then
        (if res \<noteq> [] \<and> last res \<noteq> ''..'' then butlast res
         else if allowAboveRoot then res @ [''..''] else res)
      else res @ [seg])"

definition normalizeString :: "string \<Rightarrow> bool \<Rightarrow> string" where
  "normalizeString p allowAboveRoot =
     join_slash (foldl (norm_step allowAboveRoot) [] (split_on CHR ''/'' p))"

definition normalize :: "string \<Rightarrow> string" where
  "normalize p =
     (if p = [] then ''.''
      else let isAbs = isAbsolute p;
               trailingSeparator = (last p = CHR ''/'');
               q = normalizeString p (\<not> isAbs)
           in if q = [] then (if isAbs then ''/'' else if trailingSeparator then ''./'' else ''.'')
              else let q' = (if trailingSeparator then q @ ''/'' else q)
                   in if isAbs then CHR ''/'' # q' else q')"

definition path_join :: "string list \<Rightarrow> string" where
  "path_join args =
     (let parts = filter (\<lambda>a. a \<noteq> []) args
      in if parts = [] then ''.'' else normalize (join_slash parts))"

text \<open>
  \<open>path.resolve(p)\<close> with one argument; \<open>cwd\<close> is \<open>process.cwd()\<close>, an absolute path,
  used only when \<open>p\<close> is relative.
\<close>

definition path_resolve :: "string \<Rightarrow> string \<Rightarrow> string" where
  "path_resolve cwd p =
     (let full = (if isAbsolute p then p else cwd @ CHR ''/'' # p)
      in CHR ''/'' # normalizeString full False)"

text \<open>\<open>path.basename(p)\<close>: trailing separators are ignored, then the part after the last one.\<close>

definition strip_trailing_slashes :: "string \<Rightarrow> string" where
  "strip_trailing_slashes p = rev (dropWhile (\<lambda>c. c = CHR ''/'') (rev p))"

definition basename :: "string \<Rightarrow> string" where
  "basename p = rev (takeWhile (\<lambda>c. c \<noteq> CHR ''/'') (rev (strip_trailing_slashes p)))"

text \<open>
  \<open>path.extname(p)\<close>: from the last dot of the base name to its end; empty when there is
  no dot, when the last dot is the first character of the base name, or when the base
  name is \<open>..\<close>.
\<close>

definition extname :: "string \<Rightarrow> string" where
  "extname p =
     (let b = basename p in
      if CHR ''.'' \<notin> set b then []
      else let after = rev (takeWhile (\<lambda>c. c \<noteq> CHR ''.'') (rev b));
               stem = take (length b - length after - 1) b
           in if stem = [] \<or> b = ''..'' then [] else CHR ''.'' # after)"

text \<open>
  \<open>path.basename(p, suffix)\<close> for a suffix without separators. A suffix equal to the
  whole argument gives the empty string. Otherwise the suffix is cut from the base name,
  unless it is the whole base name. When the base name is shorter than the suffix and
  is the end of it, Node returns the base name together with the trailing separators of
  the argument.
\<close>

definition basename_ext :: "string \<Rightarrow> string \<Rightarrow> string" where
  "basename_ext p suffix =
     (if suffix \<noteq> [] \<and> length suffix \<le> length p then
        (if suffix = p then []
         else let b = basename p
              in if endsWith b suffix \<and> suffix \<noteq> b then take (length b - length suffix) b
                 else if length b < length suffix \<and> endsWith suffix b
                   then b @ drop (length (strip_trailing_slashes p)) p
                 else b)
      else basename p)"

text \<open>
  \<open>path.relative(from, to)\<close>: both are resolved, the common leading segments dropped,
  one \<open>..\<close> for every remaining segment of \<open>from\<close>, then the rest of \<open>to\<close>.
\<close>

fun drop_common :: "string list \<Rightarrow> string list \<Rightarrow> string list \<times> string list" where
  "drop_common (x # xs) (y # ys) = (if x = y then drop_common xs ys else (x # xs, y # ys))"
| "drop_common xs ys = (xs, ys)"

definition path_segments :: "string \<Rightarrow> string list" where
  "path_segments p = filter (\<lambda>s. s \<noteq> []) (split_on CHR ''/'' p)"

definition path_relative :: "string \<Rightarrow> string \<Rightarrow> string \<Rightarrow> string" where
  "path_relative cwd from to =
     (if from = to then []
      else let (f, t) = drop_common (path_segments (path_resolve cwd from))
                                    (path_segments (path_resolve cwd to))
           in join_slash (replicate (length f) ''..'' @ t))"

text \<open>
  For a file name \<open>s\<close> that is a single ordinary segment, \<open>path.join(d, s)\<close> is a
  prefix that depends on \<open>d\<close> alone, followed by \<open>s\<close>.
\<close>

definition ordinary_segment :: "string \<Rightarrow> bool" where
  "ordinary_segment s = (s \<noteq> [] \<and> CHR ''/'' \<notin> set s \<and> s \<noteq> ''.'' \<and> s \<noteq> ''..'')"

definition join_prefix :: "string \<Rightarrow> string" where
  "join_prefix d =
     (if d = [] then []
      else let r = foldl (norm_step (\<not> isAbsolute d)) [] (split_on CHR ''/'' d)
           in (if isAbsolute d then ''/'' else []) @ (if r = [] then [] else join_slash r @ ''/''))"

section \<open>The file system\<close>

text \<open>
  A file system maps normalized absolute paths to nodes; the first binding of a path in
  the list is the current one. Every path the code passes to \<open>fs\<close> comes out of
  \<open>path.join\<close>, so it is normalized. Symbolic links are not modelled.
\<close>

type_synonym bytes = "char list"

datatype node = File bytes | Dir

type_synonym filesystem = "(string \<times> node) list"

text \<open>
  \<open>fs.existsSync(p)\<close>. A path that ends in separators names a directory: it exists
  when the path without them is a directory, and the root always exists.
\<close>

definition existsSync :: "filesystem \<Rightarrow> string \<Rightarrow> bool" where
  "existsSync fs p =
     (let q = strip_trailing_slashes p
      in if q = p then map_of fs p \<noteq> None
         else if q = [] then True
         else map_of fs q = Some Dir)"

definition write_file :: "filesystem \<Rightarrow> string \<Rightarrow> bytes \<Rightarrow> filesystem" where
  "write_file fs p b = (p, File b) # fs"

definition mkdir :: "filesystem \<Rightarrow> string \<Rightarrow> filesystem" where
  "mkdir fs p = (if existsSync fs p then fs else (p, Dir) # fs)"

text \<open>\<open>fs.remove(p)\<close> of fs-extra: the node at \<open>p\<close> and everything below it.\<close>

definition fs_remove :: "filesystem \<Rightarrow> string \<Rightarrow> filesystem" where
  "fs_remove fs p = filter (\<lambda>(q, n). q \<noteq> p \<and> \<not> startsWith q (p @ ''/'')) fs"

definition UPLOAD_DIR :: "string \<Rightarrow> string" where
  "UPLOAD_DIR cwd = path_join [cwd, ''uploads'']"

definition TEMP_DIR :: "string \<Rightarrow> string" where
  "TEMP_DIR cwd = path_join [cwd, ''temp'']"

section \<open>The upload route: entry filter and archive extractor\<close>

definition IMAGE_EXTENSIONS :: "string list" where
  "IMAGE_EXTENSIONS = [''.jpg'', ''.jpeg'', ''.png'', ''.gif'', ''.webp'', ''.bmp'']"

definition isImageFile :: "string \<Rightarrow> bool" where
  "isImageFile filename = (toLowerCase (extname filename) \<in> set IMAGE_EXTENSIONS)"

text \<open>
  What the archive library reports for one upload. \<open>yauzl.open\<close> either fails or
  delivers \<open>entry\<close> events, closed by \<open>end\<close> or by an \<open>error\<close> event; the list
  holds the events in the order in which the handler receives them. The outcome of the
  input and output for one entry belongs to the environment and is carried with the
  entry: opening its read stream may fail, the write stream may fail (leaving nothing,
  or a partial file, at its location), or the copy completes.

  As long as no write stream fails, the handler asks for the next entry exactly once per
  event, and the events are the entries of the container in container order. When a
  write stream fails, the handler asks twice (on \<open>error\<close> and again on \<open>close\<close>);
  which events the library delivers after that is not derived here, they are whatever
  the list says.
\<close>

datatype io_outcome = StreamOpenError | WriteError "bytes option" | WriteOk

record entry =
  fileName :: string
  content :: bytes
  io :: io_outcome

datatype zipfile = ZipOpenError string | ZipEntries "entry list" "string option"

text \<open>The decision taken for an entry that was not seen before (lines 378 to 401).\<close>

datatype decision = SkipDirectory | SkipNotImage | SkipResourceFork | Keep

definition entry_decision :: "string \<Rightarrow> decision" where
  "entry_decision name =
     (if endsWith name ''/'' then SkipDirectory
      else if \<not> isImageFile name then SkipNotImage
      else if startsWith (basename name) ''._'' then SkipResourceFork
      else Keep)"

text \<open>The candidate location with suffix \<open>counter\<close> (line 421).\<close>

definition suffixed_name :: "string \<Rightarrow> nat \<Rightarrow> string" where
  "suffixed_name fname counter =
     (let ext = extname fname; name = basename_ext fname ext
      in name @ ''_'' @ num_str counter @ ext)"

definition candidate :: "string \<Rightarrow> string \<Rightarrow> nat \<Rightarrow> string" where
  "candidate extractTo fname counter = path_join [extractTo, suffixed_name fname counter]"

subsection \<open>The candidates of the collision loop are pairwise different\<close>

lemma num_str_nonempty: "num_str n \<noteq> []"
  by (subst num_str.simps) simp

lemma digit_char_inject:
  assumes "a < 10" "b < 10" "char_of (48 + a) = (char_of (48 + b) :: char)"
  shows "a = (b::nat)"
proof -
  from assms(3) have "(48 + a) mod 256 = (48 + b) mod 256"
    by (simp add: char_of_eq_iff take_bit_eq_mod)
  with assms(1,2) show ?thesis by simp
qed

lemma num_str_inject: "num_str n = num_str m \<Longrightarrow> n = m"
proof (induction n arbitrary: m rule: num_str.induct)
  case (1 n)
  show ?case
  proof (cases "n < 10")
    case True
    show ?thesis
    proof (cases "m < 10")
      case mT: True
      from "1.prems" True mT have "char_of (48 + n) = (char_of (48 + m) :: char)"
        by (simp add: num_str.simps)
      with True mT show ?thesis by (rule digit_char_inject)
    next
      case mF: False
      from "1.prems" True mF have "[char_of (48 + n)] = num_str (m div 10) @ [char_of (48 + m mod 10)]"
        by (simp add: num_str.simps[of n] num_str.simps[of m])
      then show ?thesis using num_str_nonempty by (cases "num_str (m div 10)") auto
    qed
  next
    case False
    show ?thesis
    proof (cases "m < 10")
      case mT: True
      from "1.prems" False mT have "num_str (n div 10) @ [char_of (48 + n mod 10)] = [char_of (48 + m)]"
        by (simp add: num_str.simps[of n] num_str.simps[of m])
      then show ?thesis using num_str_nonempty by (cases "num_str (n div 10)") auto
    next
      case mF: False
      from "1.prems" False mF have eq: "num_str (n div 10) @ [char_of (48 + n mod 10)] = num_str (m div 10) @ [char_of (48 + m mod 10)]"
        by (simp add: num_str.simps[of n] num_str.simps[of m])
      then have a: "num_str (n div 10) = num_str (m div 10)" and b: "char_of (48 + n mod 10) = (char_of (48 + m mod 10) :: char)"
        by simp_all
      from "1.IH"[OF False a] have d: "n div 10 = m div 10" .
      have "n mod 10 = m mod 10" by (rule digit_char_inject[OF _ _ b]) simp_all
      with d show ?thesis by (metis div_mult_mod_eq)
    qed
  qed
qed

lemma split_on_nonempty: "split_on c xs \<noteq> []"
  by (induction xs) (auto split: list.splits)

lemma split_on_append: "split_on c (xs @ c # ys) = split_on c xs @ split_on c ys"
  by (induction xs) (auto simp: split_on_nonempty split: list.splits)

lemma split_on_free: "c \<notin> set xs \<Longrightarrow> split_on c xs = [xs]"
  by (induction xs) auto

lemma norm_step_ordinary: "ordinary_segment s \<Longrightarrow> norm_step a res s = res @ [s]"
  by (simp add: norm_step_def ordinary_segment_def)

lemma join_slash_snoc: "join_slash (r @ [s]) = (if r = [] then s else join_slash r @ CHR ''/'' # s)"
  by (induction r rule: join_slash.induct) auto

lemma join_slash_snoc_nonempty: "s \<noteq> [] \<Longrightarrow> join_slash (r @ [s]) \<noteq> []"
  by (simp add: join_slash_snoc)

lemma path_join_leaf:
  assumes "ordinary_segment s"
  shows "path_join [d, s] = join_prefix d @ s"
proof -
  from assms have s: "s \<noteq> []" "CHR ''/'' \<notin> set s"
    by (simp_all add: ordinary_segment_def)
  then have hd_s: "hd s \<noteq> CHR ''/''" and last_s: "last s \<noteq> CHR ''/''"
    by (metis hd_in_set, metis last_in_set)
  show ?thesis
  proof (cases "d = []")
    case True
    have "normalizeString s True = s"
      using assms s by (simp add: normalizeString_def split_on_free norm_step_ordinary)
    then show ?thesis
      using True s hd_s last_s
      by (simp add: path_join_def normalize_def isAbsolute_def join_prefix_def Let_def)
  next
    case False
    define r where "r = foldl (norm_step (\<not> isAbsolute d)) [] (split_on CHR ''/'' d)"
    have abs: "isAbsolute (d @ CHR ''/'' # s) = isAbsolute d"
      using False by (simp add: isAbsolute_def)
    have q: "normalizeString (d @ CHR ''/'' # s) (\<not> isAbsolute d) = join_slash (r @ [s])"
      using assms s
      by (simp add: normalizeString_def split_on_append split_on_free norm_step_ordinary r_def)
    have ne: "join_slash (r @ [s]) \<noteq> []"
      using s by (simp add: join_slash_snoc_nonempty)
    have "path_join [d, s] = normalize (d @ CHR ''/'' # s)"
      using False s by (simp add: path_join_def)
    also have "\<dots> = (if isAbsolute d then CHR ''/'' # join_slash (r @ [s]) else join_slash (r @ [s]))"
      using last_s s ne by (simp add: normalize_def abs q Let_def)
    also have "\<dots> = join_prefix d @ s"
      using False by (simp add: join_prefix_def r_def[symmetric] join_slash_snoc Let_def)
    finally show ?thesis .
  qed
qed

lemma basename_no_slash: "CHR ''/'' \<notin> set (basename p)"
  using set_takeWhileD[of "CHR ''/''" "\<lambda>c. c \<noteq> CHR ''/''"] by (auto simp: basename_def)

lemma extname_no_slash: "CHR ''/'' \<notin> set (extname p)"
proof -
  have "set (takeWhile (\<lambda>c. c \<noteq> CHR ''.'') (rev (basename p))) \<subseteq> set (basename p)"
    using set_takeWhileD by fastforce
  then show ?thesis
    using basename_no_slash[of p] by (auto simp: extname_def Let_def)
qed

lemma length_extname_le: "length (extname p) \<le> length (basename p)"
proof (cases "extname p = []")
  case True
  then show ?thesis by simp
next
  case False
  let ?b = "basename p"
  let ?after = "rev (takeWhile (\<lambda>c. c \<noteq> CHR ''.'') (rev ?b))"
  from False have ext: "extname p = CHR ''.'' # ?after"
    and stem: "take (length ?b - length ?after - 1) ?b \<noteq> []"
    by (auto simp: extname_def Let_def split: if_splits)
  from stem have "0 < length ?b - length ?after - 1" by (cases "length ?b - length ?after - 1") auto
  then show ?thesis unfolding ext by simp
qed

lemma basename_ext_no_slash: "CHR ''/'' \<notin> set (basename_ext p (extname p))"
  using basename_no_slash[of p] length_extname_le[of p]
  by (auto simp: basename_ext_def Let_def dest: in_set_takeD)

lemma num_str_digits: "c \<in> set (num_str n) \<Longrightarrow> \<exists>d<10. c = char_of (48 + (d::nat))"
proof (induction n rule: num_str.induct)
  case (1 n)
  show ?case
  proof (cases "n < 10")
    case True
    with "1.prems" show ?thesis by (auto simp: num_str.simps[of n])
  next
    case False
    with "1.prems" have "c \<in> set (num_str (n div 10)) \<or> c = char_of (48 + n mod 10)"
      by (auto simp: num_str.simps[of n])
    then show ?thesis
    proof
      assume "c \<in> set (num_str (n div 10))"
      with "1.IH"[OF False] show ?thesis by simp
    next
      assume "c = char_of (48 + n mod 10)"
      moreover have "n mod 10 < 10" by simp
      ultimately show ?thesis by blast
    qed
  qed
qed

lemma num_str_no_slash: "CHR ''/'' \<notin> set (num_str n)"
proof
  assume "CHR ''/'' \<in> set (num_str n)"
  then obtain d :: nat where d: "d < 10" "CHR ''/'' = char_of (48 + d)"
    using num_str_digits by blast
  from d(2) have "(of_char CHR ''/'' :: nat) = of_char (char_of (48 + d) :: char)"
    by simp
  then have "(47::nat) = (48 + d) mod 256" by simp
  with d(1) show False by simp
qed

lemma suffixed_name_ordinary: "ordinary_segment (suffixed_name f k)"
proof -
  let ?s = "suffixed_name f k"
  have us: "CHR ''_'' \<in> set ?s" by (simp add: suffixed_name_def Let_def)
  have "CHR ''/'' \<notin> set ?s"
    using basename_ext_no_slash extname_no_slash num_str_no_slash
    by (simp add: suffixed_name_def Let_def)
  moreover have "?s \<noteq> []" using us by auto
  moreover have "?s \<noteq> ''.''" using us by auto
  moreover have "?s \<noteq> ''..''" using us by auto
  ultimately show ?thesis by (simp add: ordinary_segment_def)
qed

lemma suffixed_name_inject: "suffixed_name f k = suffixed_name f j \<Longrightarrow> k = j"
  by (simp add: suffixed_name_def Let_def num_str_inject)

lemma candidate_eq: "candidate d f k = join_prefix d @ suffixed_name f k"
  by (simp add: candidate_def path_join_leaf suffixed_name_ordinary)

lemma candidate_inject: "candidate d f k = candidate d f j \<Longrightarrow> k = j"
  by (simp add: candidate_eq suffixed_name_inject)

lemma endsWith_slash: "endsWith n ''/'' \<longleftrightarrow> n \<noteq> [] \<and> last n = CHR ''/''"
proof (cases n rule: rev_cases)
  case Nil
  then show ?thesis by (simp add: endsWith_def)
next
  case (snoc ys y)
  then show ?thesis by (auto simp: endsWith_def)
qed

lemma strip_trailing_slashes_id:
  "\<not> endsWith n ''/'' \<Longrightarrow> strip_trailing_slashes n = n"
  by (cases n rule: rev_cases) (auto simp: strip_trailing_slashes_def endsWith_slash)

lemma existsSync_plain: "\<not> endsWith p ''/'' \<Longrightarrow> existsSync fs p \<longleftrightarrow> map_of fs p \<noteq> None"
  by (simp add: existsSync_def strip_trailing_slashes_id)

lemma ordinary_no_trailing:
  assumes "ordinary_segment s"
  shows "\<not> endsWith (pre @ s) ''/''"
proof -
  from assms have s: "s \<noteq> []" "CHR ''/'' \<notin> set s" by (simp_all add: ordinary_segment_def)
  then have "last s \<noteq> CHR ''/''" by (metis last_in_set)
  with s(1) show ?thesis by (simp add: endsWith_slash)
qed

lemma candidate_plain: "\<not> endsWith (candidate d f k) ''/''"
  by (simp add: candidate_eq ordinary_no_trailing suffixed_name_ordinary)

lemma existsSync_iff: "\<not> endsWith p ''/'' \<Longrightarrow> existsSync fs p \<longleftrightarrow> p \<in> fst ` set fs"
  by (simp add: existsSync_plain map_of_eq_None_iff)

text \<open>
  The loop of lines 416 to 423. It ends because the candidates are pairwise different
  and the file system holds finitely many paths.
\<close>

function free_path :: "filesystem \<Rightarrow> string \<Rightarrow> string \<Rightarrow> string \<Rightarrow> nat \<Rightarrow> string" where
  "free_path fs extractTo fname finalPath counter =
     (if existsSync fs finalPath
      then free_path fs extractTo fname (candidate extractTo fname counter) (Suc counter)
      else finalPath)"
  by pat_completeness auto

termination
proof (relation "measure (\<lambda>(fs, extractTo, fname, finalPath, counter).
          card {q \<in> fst ` set fs. \<exists>k\<ge>counter. q = candidate extractTo fname k}
          + (if existsSync fs finalPath then 1 else 0))")
  show "wf (measure (\<lambda>(fs, extractTo, fname, finalPath, counter).
          card {q \<in> fst ` set fs. \<exists>k\<ge>counter. q = candidate extractTo fname k}
          + (if existsSync fs finalPath then 1 else 0)))"
    by simp
next
  fix fs :: filesystem and extractTo fname finalPath :: string and counter :: nat
  assume ex: "existsSync fs finalPath"
  let ?A = "\<lambda>c. {q \<in> fst ` set fs. \<exists>k\<ge>c. q = candidate extractTo fname k}"
  have fin: "finite (?A counter)" by simp
  have sub: "?A (Suc counter) \<subseteq> ?A counter" using Suc_leD by blast
  have "card (?A (Suc counter)) + (if existsSync fs (candidate extractTo fname counter) then 1 else 0)
        \<le> card (?A counter)"
  proof (cases "existsSync fs (candidate extractTo fname counter)")
    case True
    then have "candidate extractTo fname counter \<in> ?A counter"
      by (auto simp: existsSync_iff[OF candidate_plain])
    moreover have "candidate extractTo fname counter \<notin> ?A (Suc counter)"
      using candidate_inject by fastforce
    ultimately have "?A (Suc counter) \<subset> ?A counter" using sub by blast
    then have "card (?A (Suc counter)) < card (?A counter)"
      using fin by (rule psubset_card_mono[rotated])
    with True show ?thesis by simp
  next
    case False
    then show ?thesis using card_mono[OF fin sub] by simp
  qed
  then show "((fs, extractTo, fname, candidate extractTo fname counter, Suc counter),
              (fs, extractTo, fname, finalPath, counter))
        \<in> measure (\<lambda>(fs, extractTo, fname, finalPath, counter).
          card {q \<in> fst ` set fs. \<exists>k\<ge>counter. q = candidate extractTo fname k}
          + (if existsSync fs finalPath then 1 else 0))"
    using ex by simp
qed

declare free_path.simps [simp del]

text \<open>The state of one \<open>extractZip\<close> call: the disk, the names seen, the settled writes.\<close>

record extract_state =
  disk :: filesystem
  processedEntries :: "string list"
  writePromises :: "string option list"

text \<open>
  The \<open>entry\<close> handler (lines 368 to 449). With \<open>lazyEntries\<close> the next entry is read
  only when the handler asks for it, which it does after the write stream of the current
  one has closed or failed: entries are handled one after the other.
\<close>

definition write_entry :: "string \<Rightarrow> extract_state \<Rightarrow> entry \<Rightarrow> extract_state" where
  "write_entry extractTo st e =
     (case io e of
        StreamOpenError \<Rightarrow> st\<lparr>writePromises := writePromises st @ [None]\<rparr>
      | WriteError left \<Rightarrow>
          (let fname = basename (fileName e);
               filePath = path_join [extractTo, fname];
               finalPath = free_path (disk st) extractTo fname filePath 1
           in st\<lparr>disk := (case left of None \<Rightarrow> disk st
                                | Some b \<Rightarrow> write_file (disk st) finalPath b),
                 writePromises := writePromises st @ [None]\<rparr>)
      | WriteOk \<Rightarrow>
          (let fname = basename (fileName e);
               filePath = path_join [extractTo, fname];
               finalPath = free_path (disk st) extractTo fname filePath 1;
               disk' = write_file (disk st) finalPath (content e)
           in st\<lparr>disk := disk',
                 writePromises := writePromises st @
                   [if existsSync disk' finalPath then Some finalPath else None]\<rparr>))"

definition on_entry :: "string \<Rightarrow> extract_state \<Rightarrow> entry \<Rightarrow> extract_state" where
  "on_entry extractTo st e =
     (if fileName e \<in> set (processedEntries st) then st
      else let st' = st\<lparr>processedEntries := set_add (processedEntries st) (fileName e)\<rparr>
           in case entry_decision (fileName e) of
                Keep \<Rightarrow> write_entry extractTo st' e
              | _ \<Rightarrow> st')"

text \<open>The \<open>end\<close> handler (lines 451 to 476): the fulfilled, non-null results, deduplicated.\<close>

definition successfulFiles :: "string option list \<Rightarrow> string list" where
  "successfulFiles settled = map the (filter (\<lambda>r. r \<noteq> None) settled)"

definition extract_entries :: "string \<Rightarrow> filesystem \<Rightarrow> entry list \<Rightarrow> extract_state" where
  "extract_entries extractTo fs es =
     foldl (on_entry extractTo) \<lparr>disk = fs, processedEntries = [], writePromises = []\<rparr> es"

text \<open>\<open>extractZip\<close>: the rejection message or the resolved array, and the disk afterwards.\<close>

definition extractZip :: "zipfile \<Rightarrow> string \<Rightarrow> filesystem \<Rightarrow> (string + string list) \<times> filesystem" where
  "extractZip z extractTo fs =
     (case z of
        ZipOpenError msg \<Rightarrow> (Inl msg, fs)
      | ZipEntries es ending \<Rightarrow>
          (let st = extract_entries extractTo fs es
           in case ending of
                Some msg \<Rightarrow> (Inl msg, disk st)
              | None \<Rightarrow> (Inr (array_from_set (successfulFiles (writePromises st))), disk st)))"

section \<open>The upload route: ingestion coordinator\<close>

text \<open>
  The uploaded form file: its name, its bytes, and what the archive library reports when
  it reads those bytes.
\<close>

record upload =
  name :: string
  data :: bytes
  archive :: zipfile

text \<open>
  The environment of one request: the working directory, the two readings of the clock
  (lines 504 and 508), and the error message with which \<open>fs.writeFile\<close> or \<open>mkdir\<close>
  throws, if it does.
\<close>

record env =
  cwd :: string
  now_zip :: nat
  now_dir :: nat
  writeFile_error :: "string option"
  mkdir_error :: "string option"

datatype response = Json nat string | Uploaded "string list" string

definition image_url :: "string \<Rightarrow> string \<Rightarrow> string" where
  "image_url wd filePath =
     (let relativePath = path_relative wd (UPLOAD_DIR wd) filePath;
          urlPath = map (\<lambda>c. if c = CHR 0x5C then CHR ''/'' else c) relativePath;
          cleanPath = (if startsWith urlPath ''/'' then drop 1 urlPath else urlPath)
      in ''/api/images/'' @ cleanPath)"

text \<open>
  \<open>extractedFiles.sort()\<close> has no comparator, so it orders the paths as strings,
  character by character: \<open>sort\<close> with the lexicographic order on lists of characters.
\<close>

text \<open>The staging file (line 504) and the session directory (line 508).\<close>

definition tempZipPath :: "env \<Rightarrow> string" where
  "tempZipPath ev = path_join [TEMP_DIR (cwd ev), ''upload_'' @ num_str (now_zip ev) @ ''.zip'']"

definition extractDir :: "env \<Rightarrow> string" where
  "extractDir ev = path_join [UPLOAD_DIR (cwd ev), ''extract_'' @ num_str (now_dir ev)]"

definition POST :: "env \<Rightarrow> filesystem \<Rightarrow> upload option \<Rightarrow> response \<times> filesystem" where
  "POST ev fs file =
     (case file of
        None \<Rightarrow> (Json 500 ''Cannot read properties of null (reading 'name')'', fs)
      | Some f \<Rightarrow>
         (if \<not> endsWith (name f) ''.zip'' then (Json 400 ''File must be a ZIP file'', fs)
          else
           (case writeFile_error ev of
              Some msg \<Rightarrow> (Json 500 msg, fs)
            | None \<Rightarrow>
               (let fs1 = write_file fs (tempZipPath ev) (data f)
                in (case mkdir_error ev of
                      Some msg \<Rightarrow> (Json 500 msg, fs1)
                    | None \<Rightarrow>
                       (let fs2 = mkdir fs1 (extractDir ev)
                        in (case extractZip (archive f) (extractDir ev) fs2 of
                              (Inl msg, fs3) \<Rightarrow> (Json 500 msg, fs3)
                            | (Inr extractedFiles, fs3) \<Rightarrow>
                               (if length extractedFiles = 0 then
                                  (Json 400 ''No images found in ZIP file'',
                                   fs_remove (fs_remove fs3 (extractDir ev)) (tempZipPath ev))
                                else if length extractedFiles > 100 then
                                  (Json 400 ''ZIP file contains more than 100 images'',
                                   fs_remove (fs_remove fs3 (extractDir ev)) (tempZipPath ev))
                                else
                                  (let sortedFiles = sort extractedFiles;
                                       uniqueFiles = array_from_set sortedFiles;
                                       existingFiles = filter (existsSync fs3) uniqueFiles;
                                       imageUrls = map (image_url (cwd ev)) existingFiles;
                                       uniqueUrls = array_from_set imageUrls;
                                       fs4 = fs_remove fs3 (tempZipPath ev);
                                       finalUrls = array_from_set uniqueUrls
                                   in if length finalUrls > 100
                                      then (Json 400 ''Too many images'', fs4)
                                      else (Uploaded finalUrls (extractDir ev), fs4))))))))))"

section \<open>The image route: address resolver\<close>

datatype served = Failed nat string | Body bytes string

definition content_type :: "string \<Rightarrow> string" where
  "content_type filePath =
     (let ext = toLowerCase (extname filePath)
      in if ext = ''.png'' then ''image/png''
         else if ext = ''.gif'' then ''image/gif''
         else if ext = ''.webp'' then ''image/webp''
         else if ext = ''.bmp'' then ''image/bmp''
         else ''image/jpeg'')"

text \<open>
  \<open>GET\<close> with the decoded catch-all segments of the request. Reading a directory makes
  \<open>fs.readFile\<close> throw, which the handler turns into status 500.
\<close>

definition GET :: "string \<Rightarrow> filesystem \<Rightarrow> string list \<Rightarrow> served" where
  "GET wd fs pathSegments =
     (if pathSegments = [] then Failed 400 ''Invalid path''
      else let filePath = path_join (UPLOAD_DIR wd # pathSegments);
               resolvedPath = path_resolve wd filePath;
               resolvedUploadDir = path_resolve wd (UPLOAD_DIR wd)
           in if \<not> startsWith resolvedPath resolvedUploadDir then Failed 403 ''Invalid path''
              else if \<not> existsSync fs filePath then Failed 404 ''File not found''
              else case map_of fs filePath of
                     Some (File b) \<Rightarrow> Body b (content_type filePath)
                   | _ \<Rightarrow> Failed 500 ''Failed to serve image'')"

section \<open>The classification route: reading an image back from its address\<close>

text \<open>
  \<open>decodeURIComponent\<close>. Every \<open>%\<close> must be followed by two hexadecimal digits,
  which give one byte. A byte below 128 is a character of its own; any other byte must
  begin a well-formed UTF-8 sequence whose remaining bytes are escapes as well. Anything
  else makes the call throw \<open>URIError\<close> (the value \<open>None\<close>). The decoded code point
  is kept as its UTF-8 bytes, as every other non-ASCII character of a string is here.
\<close>

definition hex_digit :: "char \<Rightarrow> nat option" where
  "hex_digit c =
     (let n = (of_char c :: nat)
      in if 48 \<le> n \<and> n \<le> 57 then Some (n - 48)
         else if 65 \<le> n \<and> n \<le> 70 then Some (n - 55)
         else if 97 \<le> n \<and> n \<le> 102 then Some (n - 87)
         else None)"

datatype uri_token = Plain char | Escaped nat

fun uri_tokens :: "string \<Rightarrow> uri_token list option" where
  "uri_tokens [] = Some []"
| "uri_tokens (c # cs) =
     (if c = CHR ''%'' then
        (case cs of
           h # l # rest \<Rightarrow>
             (case (hex_digit h, hex_digit l) of
                (Some a, Some b) \<Rightarrow> map_option ((#) (Escaped (16 * a + b))) (uri_tokens rest)
              | _ \<Rightarrow> None)
         | _ \<Rightarrow> None)
      else map_option ((#) (Plain c)) (uri_tokens cs))"

definition continuation :: "nat \<Rightarrow> bool" where
  "continuation b = (128 \<le> b \<and> b \<le> 191)"

text \<open>The second byte of a three-byte and of a four-byte sequence (no overlong forms, no
  surrogates, nothing above U+10FFFF).\<close>

definition second_of_three :: "nat \<Rightarrow> nat \<Rightarrow> bool" where
  "second_of_three b c =
     (if b = 224 then 160 \<le> c \<and> c \<le> 191
      else if b = 237 then 128 \<le> c \<and> c \<le> 159
      else continuation c)"

definition second_of_four :: "nat \<Rightarrow> nat \<Rightarrow> bool" where
  "second_of_four b c =
     (if b = 240 then 144 \<le> c \<and> c \<le> 191
      else if b = 244 then 128 \<le> c \<and> c \<le> 143
      else continuation c)"

fun utf8_decode :: "uri_token list \<Rightarrow> string option" where
  "utf8_decode [] = Some []"
| "utf8_decode (Plain c # ts) = map_option ((#) c) (utf8_decode ts)"
| "utf8_decode (Escaped b # ts) =
     (if b < 128 then map_option ((#) (char_of b)) (utf8_decode ts)
      else if 194 \<le> b \<and> b \<le> 223 then
        (case ts of
           Escaped c1 # r \<Rightarrow>
             (if continuation c1
              then map_option (\<lambda>s. char_of b # char_of c1 # s) (utf8_decode r)
              else None)
         | _ \<Rightarrow> None)
      else if 224 \<le> b \<and> b \<le> 239 then
        (case ts of
           Escaped c1 # Escaped c2 # r \<Rightarrow>
             (if second_of_three b c1 \<and> continuation c2
              then map_option (\<lambda>s. char_of b # char_of c1 # char_of c2 # s) (utf8_decode r)
              else None)
         | _ \<Rightarrow> None)
      else if 240 \<le> b \<and> b \<le> 244 then
        (case ts of
           Escaped c1 # Escaped c2 # Escaped c3 # r \<Rightarrow>
             (if second_of_four b c1 \<and> continuation c2 \<and> continuation c3
              then map_option (\<lambda>s. char_of b # char_of c1 # char_of c2 # char_of c3 # s)
                     (utf8_decode r)
              else None)
         | _ \<Rightarrow> None)
      else None)"

definition decodeURIComponent :: "string \<Rightarrow> string option" where
  "decodeURIComponent s = (case uri_tokens s of None \<Rightarrow> None | Some ts \<Rightarrow> utf8_decode ts)"

text \<open>\<open>s.replace(pattern, '')\<close> with a string pattern: the first occurrence is removed.\<close>

fun remove_first :: "string \<Rightarrow> string \<Rightarrow> string" where
  "remove_first pat [] = []"
| "remove_first pat (c # cs) =
     (if startsWith (c # cs) pat then drop (length pat) (c # cs)
      else c # remove_first pat cs)"

text \<open>
  \<open>getImageBase64\<close> (lines 99 to 129): the message of the error it throws, or the bytes
  and MIME type that it renders as a \<open>data:\<close> URL.
\<close>

definition getImageBase64 :: "string \<Rightarrow> filesystem \<Rightarrow> string \<Rightarrow> string + bytes \<times> string" where
  "getImageBase64 wd fs imageUrl =
     (let urlPath = remove_first ''/api/images/'' imageUrl
      in case decodeURIComponent urlPath of
           None \<Rightarrow> Inl ''URI malformed''
         | Some decodedPath \<Rightarrow>
             (let filePath = path_join [UPLOAD_DIR wd, decodedPath]
              in if \<not> existsSync fs filePath then Inl (''Image file not found: '' @ filePath)
                 else case map_of fs filePath of
                        Some (File b) \<Rightarrow> Inr (b, content_type filePath)
                      | _ \<Rightarrow> Inl ''EISDIR: illegal operation on a directory, read''))"

section \<open>The specification's vocabulary\<close>

text \<open>
  Keeping every element at its first occurrence, written without a set: the order the
  specification asks of a deduplicated list.
\<close>

fun first_occurrences :: "'a list \<Rightarrow> 'a list" where
  "first_occurrences [] = []"
| "first_occurrences (x # xs) = x # first_occurrences (filter (\<lambda>y. y \<noteq> x) xs)"

text \<open>
  The entry filter in the specification's words: not a directory entry, an extension
  among the six image extensions whatever its case, and a last path segment (the text
  after the last separator) that does not begin with \<open>._\<close>.
\<close>

definition last_segment :: "string \<Rightarrow> string" where
  "last_segment n = last (split_on CHR ''/'' n)"

definition spec_keeps :: "string \<Rightarrow> bool" where
  "spec_keeps n =
     (\<not> endsWith n ''/''
      \<and> (\<exists>x \<in> set [''jpg'', ''jpeg'', ''png'', ''gif'', ''webp'', ''bmp'']. toLowerCase (extname n) = CHR ''.'' # x)
      \<and> \<not> startsWith (last_segment n) ''._'')"

text \<open>
  The qualifying image entries of a container: the different names that the filter keeps.
\<close>

definition qualifying_names :: "entry list \<Rightarrow> string list" where
  "qualifying_names es = remdups (filter (\<lambda>n. entry_decision n = Keep) (map fileName es))"

text \<open>
  \<open>process.cwd()\<close> is an absolute path in normal form: normalizing it below the root
  gives it back.
\<close>

definition normalized_absolute :: "string \<Rightarrow> bool" where
  "normalized_absolute p = (p = CHR ''/'' # normalizeString p False)"

section \<open>Notions used in the proofs\<close>

text \<open>The location at which a kept entry is written on the disk \<open>fs\<close> (lines 412 to 423).\<close>

definition destination :: "string \<Rightarrow> filesystem \<Rightarrow> entry \<Rightarrow> string" where
  "destination d fs e =
     free_path fs d (basename (fileName e)) (path_join [d, basename (fileName e)]) 1"

text \<open>
  What holds of the settled writes while every kept entry is copied completely: all are
  locations, pairwise different, present on disk, directly inside the destination.
\<close>

definition results_ok :: "string \<Rightarrow> extract_state \<Rightarrow> string list \<Rightarrow> bool" where
  "results_ok d st ps =
     (writePromises st = map Some ps \<and> distinct ps \<and>
      (\<forall>p\<in>set ps. existsSync (disk st) p \<and> (\<exists>s. ordinary_segment s \<and> p = join_prefix d @ s)))"

section \<open>Example requests\<close>

text \<open>
  The scenario of the specification: an archive with \<open>a.jpg\<close>, \<open>sub/a.jpg\<close>,
  \<open>b.png\<close>, \<open>._b.png\<close>, \<open>readme.txt\<close> and \<open>empty_dir/\<close>, uploaded to a server
  running in \<open>/app\<close>; and an archive without any image.
\<close>

definition scenario_env :: env where
  "scenario_env =
     \<lparr>cwd = ''/app'', now_zip = 7, now_dir = 8, writeFile_error = None, mkdir_error = None\<rparr>"

definition scenario_disk :: filesystem where
  "scenario_disk = [(''/app/uploads'', Dir), (''/app/temp'', Dir)]"

definition scenario_entries :: "entry list" where
  "scenario_entries =
     [\<lparr>fileName = ''b.png'', content = ''3'', io = WriteOk\<rparr>,
      \<lparr>fileName = ''a.jpg'', content = ''1'', io = WriteOk\<rparr>,
      \<lparr>fileName = ''sub/a.jpg'', content = ''2'', io = WriteOk\<rparr>,
      \<lparr>fileName = ''._b.png'', content = ''4'', io = WriteOk\<rparr>,
      \<lparr>fileName = ''readme.txt'', content = ''5'', io = WriteOk\<rparr>,
      \<lparr>fileName = ''empty_dir/'', content = [], io = WriteOk\<rparr>]"

definition scenario_upload :: upload where
  "scenario_upload =
     \<lparr>name = ''pics.zip'', data = ''PK'', archive = ZipEntries scenario_entries None\<rparr>"

definition no_image_entries :: "entry list" where
  "no_image_entries =
     [\<lparr>fileName = ''readme.txt'', content = ''r'', io = WriteOk\<rparr>,
      \<lparr>fileName = ''empty_dir/'', content = [], io = WriteOk\<rparr>,
      \<lparr>fileName = ''._b.png'', content = ''f'', io = WriteOk\<rparr>]"

definition no_image_upload :: upload where
  "no_image_upload =
     \<lparr>name = ''docs.zip'', data = ''PK'', archive = ZipEntries no_image_entries None\<rparr>"

section \<open>Deduplication\<close>

lemma length_foldl_set_add: "length (foldl set_add acc xs) \<le> length acc + length xs"
proof (induction xs arbitrary: acc)
  case Nil
  show ?case by simp
next
  case (Cons x xs)
  have "length (foldl set_add (set_add acc x) xs) \<le> length (set_add acc x) + length xs"
    by (rule Cons.IH)
  also have "length (set_add acc x) \<le> Suc (length acc)"
    by (simp add: set_add_def)
  finally show ?case by simp
qed

lemma length_array_from_set: "length (array_from_set xs) \<le> length xs"
  using length_foldl_set_add[of "[]" xs] by (simp add: array_from_set_def)

lemma length_final_urls:
  "length (array_from_set (array_from_set (map f (filter P (array_from_set (sort xs))))))
     \<le> length xs"
proof -
  have "length (array_from_set (array_from_set (map f (filter P (array_from_set (sort xs))))))
        \<le> length (filter P (array_from_set (sort xs)))"
    using length_array_from_set le_trans by (metis length_map)
  also have "\<dots> \<le> length (array_from_set (sort xs))" by simp
  also have "\<dots> \<le> length (sort xs)" by (rule length_array_from_set)
  finally show ?thesis by simp
qed

lemma foldl_set_add_first_occurrences:
  "foldl set_add acc xs = acc @ first_occurrences (filter (\<lambda>y. y \<notin> set acc) xs)"
proof (induction xs arbitrary: acc)
  case Nil
  show ?case by simp
next
  case (Cons x xs)
  show ?case
  proof (cases "x \<in> set acc")
    case True
    then show ?thesis using Cons.IH[of acc] by (simp add: set_add_def)
  next
    case False
    have "(\<lambda>y. y \<notin> set (acc @ [x])) = (\<lambda>y. y \<notin> set acc \<and> y \<noteq> x)" by auto
    then show ?thesis using False Cons.IH[of "acc @ [x]"]
      by (simp add: set_add_def)
  qed
qed

lemma array_from_set_first_occurrences: "array_from_set xs = first_occurrences xs"
  by (simp add: array_from_set_def foldl_set_add_first_occurrences)

lemma set_first_occurrences: "set (first_occurrences xs) = set xs"
  by (induction xs rule: first_occurrences.induct) auto

lemma distinct_first_occurrences: "distinct (first_occurrences xs)"
  by (induction xs rule: first_occurrences.induct) (auto simp: set_first_occurrences)

lemma first_occurrences_distinct: "distinct xs \<Longrightarrow> first_occurrences xs = xs"
proof (induction xs)
  case Nil
  show ?case by simp
next
  case (Cons x xs)
  then have "filter (\<lambda>y. y \<noteq> x) xs = xs" by (auto intro: filter_True)
  with Cons show ?case by simp
qed

section \<open>Names already seen\<close>

lemma on_entry_seen: "fileName e \<in> set (processedEntries st) \<Longrightarrow> on_entry d st e = st"
  by (simp add: on_entry_def)

lemma processedEntries_write_entry [simp]:
  "processedEntries (write_entry d st e) = processedEntries st"
  by (simp add: write_entry_def Let_def split: io_outcome.splits)

lemma set_set_add [simp]: "set (set_add acc x) = insert x (set acc)"
  by (auto simp: set_add_def)

lemma processedEntries_on_entry:
  "set (processedEntries (on_entry d st e)) = insert (fileName e) (set (processedEntries st))"
  by (auto simp: on_entry_def Let_def split: decision.splits)

lemma processedEntries_foldl_mono:
  "set (processedEntries st) \<subseteq> set (processedEntries (foldl (on_entry d) st es))"
proof (induction es arbitrary: st)
  case Nil
  show ?case by simp
next
  case (Cons e es)
  have "set (processedEntries st) \<subseteq> set (processedEntries (on_entry d st e))"
    by (auto simp: processedEntries_on_entry)
  also have "\<dots> \<subseteq> set (processedEntries (foldl (on_entry d) (on_entry d st e) es))"
    by (rule Cons.IH)
  finally show ?case by simp
qed

lemma foldl_on_entry_duplicate:
  assumes "fileName e' = fileName e"
  shows "foldl (on_entry d) st (es1 @ e # es2 @ e' # es3) = foldl (on_entry d) st (es1 @ e # es2 @ es3)"
proof -
  let ?st1 = "on_entry d (foldl (on_entry d) st es1) e"
  let ?st2 = "foldl (on_entry d) ?st1 es2"
  have "fileName e \<in> set (processedEntries ?st1)"
    by (simp add: processedEntries_on_entry)
  then have "fileName e' \<in> set (processedEntries ?st2)"
    using processedEntries_foldl_mono[of ?st1 d es2] assms by auto
  then have "on_entry d ?st2 e' = ?st2" by (rule on_entry_seen)
  then show ?thesis by simp
qed

section \<open>The entry filter\<close>

lemma last_split_on: "last (split_on c xs) = rev (takeWhile (\<lambda>x. x \<noteq> c) (rev xs))"
proof (cases "c \<in> set xs")
  case False
  then have tw: "takeWhile (\<lambda>x. x \<noteq> c) (rev xs) = rev xs"
    by (auto intro: takeWhile_eq_all_conv[THEN iffD2])
  show ?thesis unfolding tw using False by (simp add: split_on_free)
next
  case True
  then obtain ys zs where xs: "xs = ys @ c # zs" and zs: "c \<notin> set zs"
    by (meson split_list_last)
  have "takeWhile (\<lambda>x. x \<noteq> c) (rev zs @ c # rev ys) = rev zs"
    using zs by (auto simp: takeWhile_append2 takeWhile_tail)
  with xs zs show ?thesis
    by (simp add: split_on_append split_on_free split_on_nonempty)
qed

lemma basename_last_segment: "\<not> endsWith n ''/'' \<Longrightarrow> basename n = last_segment n"
  by (simp add: basename_def last_segment_def strip_trailing_slashes_id last_split_on)

lemma in_image_extensions:
  "x \<in> set IMAGE_EXTENSIONS \<longleftrightarrow>
   (\<exists>y \<in> set [''jpg'', ''jpeg'', ''png'', ''gif'', ''webp'', ''bmp'']. x = CHR ''.'' # y)"
  by (auto simp: IMAGE_EXTENSIONS_def)

lemma entry_decision_Keep: "entry_decision n = Keep \<longleftrightarrow> spec_keeps n"
  using basename_last_segment[of n]
  by (auto simp: entry_decision_def spec_keeps_def isImageFile_def in_image_extensions)

lemma on_entry_not_kept:
  assumes "entry_decision (fileName e) \<noteq> Keep"
  shows "disk (on_entry d st e) = disk st \<and> writePromises (on_entry d st e) = writePromises st"
  using assms by (cases "entry_decision (fileName e)") (simp_all add: on_entry_def Let_def)

section \<open>The collision loop\<close>

lemma free_path_free: "\<not> existsSync fs (free_path fs d f p c)"
proof (induction fs d f p c rule: free_path.induct)
  case (1 fs d f p c)
  then show ?case by (subst free_path.simps) simp
qed

lemma free_path_unused: "\<not> existsSync fs p \<Longrightarrow> free_path fs d f p c = p"
  by (subst free_path.simps) simp

lemma free_path_suffix:
  "existsSync fs p \<Longrightarrow>
   \<exists>k\<ge>c. free_path fs d f p c = candidate d f k
        \<and> (\<forall>j. c \<le> j \<and> j < k \<longrightarrow> existsSync fs (candidate d f j))"
proof (induction fs d f p c rule: free_path.induct)
  case (1 fs d f p c)
  have step: "free_path fs d f p c = free_path fs d f (candidate d f c) (Suc c)"
    using "1.prems" by (subst free_path.simps) simp
  show ?case
  proof (cases "existsSync fs (candidate d f c)")
    case False
    then have "free_path fs d f p c = candidate d f c"
      using step by (simp add: free_path_unused)
    then show ?thesis by auto
  next
    case True
    from "1.IH"[OF "1.prems" True] obtain k where k: "Suc c \<le> k"
      "free_path fs d f (candidate d f c) (Suc c) = candidate d f k"
      "\<forall>j. Suc c \<le> j \<and> j < k \<longrightarrow> existsSync fs (candidate d f j)"
      by blast
    have "\<forall>j. c \<le> j \<and> j < k \<longrightarrow> existsSync fs (candidate d f j)"
    proof (intro allI impI)
      fix j assume "c \<le> j \<and> j < k"
      then have "j = c \<or> (Suc c \<le> j \<and> j < k)" by arith
      then show "existsSync fs (candidate d f j)" using True k(3) by blast
    qed
    with k step show ?thesis by (intro exI[of _ k]) simp
  qed
qed

lemma existsSync_mono:
  assumes keep: "\<And>q n. map_of fs q = Some n \<Longrightarrow> map_of fs' q = Some n"
    and ex: "existsSync fs p"
  shows "existsSync fs' p"
proof -
  let ?q = "strip_trailing_slashes p"
  show ?thesis
  proof (cases "?q = p")
    case True
    with ex obtain n where "map_of fs p = Some n" by (auto simp: existsSync_def)
    then have "map_of fs' p = Some n" by (rule keep)
    with True show ?thesis by (simp add: existsSync_def)
  next
    case False
    show ?thesis
    proof (cases "?q = []")
      case True
      with False show ?thesis by (simp add: existsSync_def)
    next
      case F2: False
      with False ex have "map_of fs ?q = Some Dir" by (simp add: existsSync_def)
      then have "map_of fs' ?q = Some Dir" by (rule keep)
      with False F2 show ?thesis by (simp add: existsSync_def)
    qed
  qed
qed

lemma map_of_write_file:
  "map_of (write_file fs p b) q = (if q = p then Some (File b) else map_of fs q)"
  by (simp add: write_file_def)

lemma existsSync_write_file_same:
  "\<not> endsWith p ''/'' \<Longrightarrow> existsSync (write_file fs p b) p"
  by (simp add: existsSync_plain map_of_write_file)

lemma existsSync_write_file_other:
  assumes q: "existsSync fs q" and free: "\<not> existsSync fs p" and plain: "\<not> endsWith p ''/''"
  shows "existsSync (write_file fs p b) q"
proof (rule existsSync_mono[OF _ q])
  fix r n assume r: "map_of fs r = Some n"
  from free plain have "map_of fs p = None" by (simp add: existsSync_plain)
  with r have "r \<noteq> p" by auto
  with r show "map_of (write_file fs p b) r = Some n" by (simp add: map_of_write_file)
qed

lemma destination_free: "\<not> existsSync fs (destination d fs e)"
  by (simp add: destination_def free_path_free)

lemma extname_ordinary_basename:
  assumes "extname n \<noteq> []"
  shows "ordinary_segment (basename n)"
proof -
  let ?b = "basename n"
  from assms have dot: "CHR ''.'' \<in> set ?b"
    by (auto simp: extname_def Let_def split: if_splits)
  from assms have stem: "take (length ?b - length (rev (takeWhile (\<lambda>c. c \<noteq> CHR ''.'') (rev ?b))) - 1) ?b \<noteq> []"
    and dd: "?b \<noteq> ''..''"
    by (auto simp: extname_def Let_def split: if_splits)
  have "?b \<noteq> ''.''"
  proof
    assume "?b = ''.''"
    with stem show False by simp
  qed
  moreover have "?b \<noteq> []" using dot by auto
  ultimately show ?thesis using dd basename_no_slash[of n] by (simp add: ordinary_segment_def)
qed

lemma kept_basename_ordinary:
  assumes "entry_decision n = Keep"
  shows "ordinary_segment (basename n)"
proof -
  from assms have "isImageFile n"
    by (auto simp: entry_decision_def split: if_splits)
  then have "extname n \<noteq> []"
    by (auto simp: isImageFile_def IMAGE_EXTENSIONS_def toLowerCase_def)
  then show ?thesis by (rule extname_ordinary_basename)
qed

lemma free_path_cases:
  "free_path fs d f p c = p \<or> (\<exists>k. free_path fs d f p c = candidate d f k)"
proof (cases "existsSync fs p")
  case True
  from free_path_suffix[OF this, of c d f] show ?thesis by blast
next
  case False
  then show ?thesis by (simp add: free_path_unused)
qed

lemma destination_form:
  assumes "entry_decision (fileName e) = Keep"
  shows "\<exists>s. ordinary_segment s \<and> destination d fs e = join_prefix d @ s"
proof -
  let ?leaf = "basename (fileName e)"
  have leaf: "ordinary_segment ?leaf" using assms by (rule kept_basename_ordinary)
  from free_path_cases[of fs d ?leaf "path_join [d, ?leaf]" 1]
  show ?thesis
  proof
    assume "free_path fs d ?leaf (path_join [d, ?leaf]) 1 = path_join [d, ?leaf]"
    then have "destination d fs e = join_prefix d @ ?leaf"
      by (simp add: destination_def path_join_leaf[OF leaf])
    with leaf show ?thesis by blast
  next
    assume "\<exists>k. free_path fs d ?leaf (path_join [d, ?leaf]) 1 = candidate d ?leaf k"
    then obtain k where "destination d fs e = join_prefix d @ suffixed_name ?leaf k"
      by (auto simp: destination_def candidate_eq)
    then show ?thesis using suffixed_name_ordinary by blast
  qed
qed

lemma destination_plain:
  assumes "entry_decision (fileName e) = Keep"
  shows "\<not> endsWith (destination d fs e) ''/''"
proof -
  from destination_form[OF assms, of d fs] obtain s where
    "ordinary_segment s" "destination d fs e = join_prefix d @ s" by blast
  then show ?thesis by (simp add: ordinary_no_trailing)
qed

lemma write_entry_ok:
  assumes kept: "entry_decision (fileName e) = Keep" and io: "io e = WriteOk"
  shows "write_entry d st e =
           st\<lparr>disk := write_file (disk st) (destination d (disk st) e) (content e),
              writePromises := writePromises st @ [Some (destination d (disk st) e)]\<rparr>"
proof -
  have "existsSync (write_file (disk st) (destination d (disk st) e) (content e))
          (destination d (disk st) e)"
    by (rule existsSync_write_file_same[OF destination_plain[OF kept]])
  then show ?thesis
    using io by (simp add: write_entry_def Let_def destination_def)
qed

lemma on_entry_kept_ok:
  assumes "entry_decision (fileName e) = Keep" "fileName e \<notin> set (processedEntries st)" "io e = WriteOk"
  shows "disk (on_entry d st e) = write_file (disk st) (destination d (disk st) e) (content e)"
    and "writePromises (on_entry d st e) = writePromises st @ [Some (destination d (disk st) e)]"
  using assms by (simp_all add: on_entry_def Let_def write_entry_ok)

lemma disk_write_entry_keeps:
  assumes p: "map_of (disk st) p = Some n" and kept: "entry_decision (fileName e) = Keep"
  shows "map_of (disk (write_entry d st e)) p = Some n"
proof -
  have ne: "p \<noteq> destination d (disk st) e"
  proof
    assume eq: "p = destination d (disk st) e"
    then have "\<not> endsWith p ''/''" using destination_plain[OF kept] by simp
    then have "existsSync (disk st) p" using p by (simp add: existsSync_plain)
    with eq show False using destination_free by metis
  qed
  show ?thesis
    using p ne
    by (auto simp: write_entry_def Let_def map_of_write_file destination_def
             split: io_outcome.splits option.splits)
qed

lemma disk_on_entry_keeps:
  assumes "map_of (disk st) p = Some n"
  shows "map_of (disk (on_entry d st e)) p = Some n"
proof (cases "fileName e \<notin> set (processedEntries st) \<and> entry_decision (fileName e) = Keep")
  case True
  let ?st' = "st\<lparr>processedEntries := set_add (processedEntries st) (fileName e)\<rparr>"
  have "map_of (disk ?st') p = Some n" using assms by simp
  then have "map_of (disk (write_entry d ?st' e)) p = Some n"
    using True by (intro disk_write_entry_keeps) simp_all
  with True show ?thesis by (simp add: on_entry_def Let_def)
next
  case False
  then show ?thesis
    using assms by (cases "entry_decision (fileName e)") (auto simp: on_entry_def Let_def)
qed


lemma existsSync_on_entry:
  assumes "existsSync (disk st) p"
  shows "existsSync (disk (on_entry d st e)) p"
  using disk_on_entry_keeps assms by (rule existsSync_mono)






section \<open>Containers without images\<close>

lemma foldl_on_entry_none_kept:
  assumes "\<forall>e\<in>set es. entry_decision (fileName e) \<noteq> Keep"
  shows "disk (foldl (on_entry d) st es) = disk st
       \<and> writePromises (foldl (on_entry d) st es) = writePromises st"
  using assms
proof (induction es arbitrary: st)
  case Nil
  show ?case by simp
next
  case (Cons e es)
  from Cons.prems have "entry_decision (fileName e) \<noteq> Keep" by simp
  then have "disk (on_entry d st e) = disk st \<and> writePromises (on_entry d st e) = writePromises st"
    by (rule on_entry_not_kept)
  moreover from Cons.prems have "\<forall>e\<in>set es. entry_decision (fileName e) \<noteq> Keep" by simp
  ultimately show ?case using Cons.IH[of "on_entry d st e"] by simp
qed

lemma map_of_filter_key:
  "map_of (filter (\<lambda>(q, n). P q) fs) p = (if P p then map_of fs p else None)"
  by (induction fs) auto

lemma map_of_fs_remove:
  "map_of (fs_remove fs p) q = (if q \<noteq> p \<and> \<not> startsWith q (p @ ''/'') then map_of fs q else None)"
  by (simp add: fs_remove_def map_of_filter_key)

lemma existsSync_fs_remove_plain:
  "\<not> endsWith q ''/'' \<Longrightarrow>
   existsSync (fs_remove fs p) q \<longleftrightarrow> existsSync fs q \<and> q \<noteq> p \<and> \<not> startsWith q (p @ ''/'')"
  by (simp add: existsSync_plain map_of_fs_remove)

lemma existsSync_fs_remove_sub:
  assumes "existsSync (fs_remove fs p) q"
  shows "existsSync fs q"
proof (rule existsSync_mono[OF _ assms])
  fix r n assume "map_of (fs_remove fs p) r = Some n"
  then show "map_of fs r = Some n" by (simp add: map_of_fs_remove split: if_splits)
qed

lemma strip_trailing_slashes_append:
  "strip_trailing_slashes (a @ b) =
     (if \<forall>c\<in>set b. c = CHR ''/'' then strip_trailing_slashes a else a @ strip_trailing_slashes b)"
proof (cases "\<forall>c\<in>set b. c = CHR ''/''")
  case True
  then have "dropWhile (\<lambda>c. c = CHR ''/'') (rev b @ rev a) = dropWhile (\<lambda>c. c = CHR ''/'') (rev a)"
    by (intro dropWhile_append2) simp
  with True show ?thesis by (simp add: strip_trailing_slashes_def)
next
  case False
  then obtain c where "c \<in> set (rev b)" "c \<noteq> CHR ''/''" by auto
  then have "dropWhile (\<lambda>c. c = CHR ''/'') (rev b @ rev a)
             = dropWhile (\<lambda>c. c = CHR ''/'') (rev b) @ rev a"
    by (intro dropWhile_append1) simp_all
  then have r: "strip_trailing_slashes (a @ b) = a @ strip_trailing_slashes b"
    by (simp add: strip_trailing_slashes_def)
  show ?thesis unfolding r using False by (simp only: if_False)
qed

lemma strip_trailing_slashes_below:
  assumes plain: "\<not> endsWith p ''/''" and below: "startsWith q (p @ ''/'')"
  shows "strip_trailing_slashes q = p \<or> startsWith (strip_trailing_slashes q) (p @ ''/'')"
proof -
  from below obtain r where q: "q = p @ CHR ''/'' # r"
    by (metis startsWith_def append_take_drop_id append_assoc append_Cons append_Nil)
  show ?thesis
  proof (cases "\<forall>c\<in>set r. c = CHR ''/''")
    case True
    then have "strip_trailing_slashes q = strip_trailing_slashes p"
      unfolding q by (simp add: strip_trailing_slashes_append)
    then show ?thesis using plain by (simp add: strip_trailing_slashes_id)
  next
    case False
    then have "strip_trailing_slashes q = p @ CHR ''/'' # strip_trailing_slashes r"
      unfolding q
      using strip_trailing_slashes_append[of p "CHR ''/'' # r"]
            strip_trailing_slashes_append[of "''/''" r]
      by auto
    then show ?thesis by (simp add: startsWith_def)
  qed
qed

lemma not_existsSync_fs_remove:
  assumes ne: "p \<noteq> []" and plain: "\<not> endsWith p ''/''"
    and q: "q = p \<or> startsWith q (p @ ''/'')"
  shows "\<not> existsSync (fs_remove fs p) q"
proof -
  let ?s = "strip_trailing_slashes q"
  have key: "?s = p \<or> startsWith ?s (p @ ''/'')"
    using q plain strip_trailing_slashes_below[OF plain] by (auto simp: strip_trailing_slashes_id)
  then have gone: "map_of (fs_remove fs p) ?s = None" by (auto simp: map_of_fs_remove)
  have "?s \<noteq> []" using key ne by (auto simp: startsWith_def)
  with gone show ?thesis by (auto simp: existsSync_def Let_def)
qed

section \<open>Absolute paths in normal form\<close>

lemma foldl_norm_ordinary:
  "\<forall>s\<in>set cs. ordinary_segment s \<Longrightarrow> foldl (norm_step a) acc cs = acc @ cs"
  by (induction cs arbitrary: acc) (simp_all add: norm_step_ordinary)

lemma split_on_join_slash:
  "cs \<noteq> [] \<Longrightarrow> \<forall>s\<in>set cs. CHR ''/'' \<notin> set s \<Longrightarrow> split_on CHR ''/'' (join_slash cs) = cs"
proof (induction cs rule: join_slash.induct)
  case 1
  then show ?case by simp
next
  case (2 s)
  then show ?case by (simp add: split_on_free)
next
  case (3 s t ss)
  then show ?case by (simp add: split_on_append split_on_free)
qed

lemma split_on_abs:
  assumes "\<forall>s\<in>set cs. ordinary_segment s"
  shows "split_on CHR ''/'' (join_slash cs) = (if cs = [] then [[]] else cs)"
proof -
  have "\<forall>s\<in>set cs. CHR ''/'' \<notin> set s" using assms by (simp add: ordinary_segment_def)
  then show ?thesis by (cases "cs = []") (simp_all add: split_on_join_slash)
qed

lemma norm_step_empty [simp]: "norm_step a res [] = res"
  by (simp add: norm_step_def)

lemma normalizeString_abs:
  assumes "\<forall>s\<in>set cs. ordinary_segment s"
  shows "normalizeString (CHR ''/'' # join_slash cs) a = join_slash cs"
  using assms by (simp add: normalizeString_def split_on_abs foldl_norm_ordinary)

lemma path_segments_abs:
  assumes "\<forall>s\<in>set cs. ordinary_segment s"
  shows "path_segments (CHR ''/'' # join_slash cs) = cs"
proof -
  have "filter (\<lambda>s. s \<noteq> []) cs = cs"
    using assms by (auto simp: ordinary_segment_def intro: filter_True)
  then show ?thesis using assms by (simp add: path_segments_def split_on_abs)
qed

lemma path_resolve_abs:
  assumes "\<forall>s\<in>set cs. ordinary_segment s"
  shows "path_resolve wd (CHR ''/'' # join_slash cs) = CHR ''/'' # join_slash cs"
  using assms by (simp add: path_resolve_def isAbsolute_def normalizeString_abs)

lemma join_prefix_abs:
  assumes "\<forall>s\<in>set cs. ordinary_segment s"
  shows "join_prefix (CHR ''/'' # join_slash cs) = CHR ''/'' # (if cs = [] then [] else join_slash cs @ ''/'')"
  using assms by (simp add: join_prefix_def isAbsolute_def split_on_abs foldl_norm_ordinary)

lemma path_join_abs:
  assumes "\<forall>s\<in>set cs. ordinary_segment s" "ordinary_segment s"
  shows "path_join [CHR ''/'' # join_slash cs, s] = CHR ''/'' # join_slash (cs @ [s])"
  using assms by (simp add: path_join_leaf join_prefix_abs join_slash_snoc)

lemma split_on_segments_free: "s \<in> set (split_on c xs) \<Longrightarrow> c \<notin> set s"
  by (induction xs arbitrary: s) (auto split: if_splits list.splits)

lemma foldl_norm_all_ordinary:
  assumes "\<forall>s\<in>set acc. ordinary_segment s" "\<forall>s\<in>set segs. CHR ''/'' \<notin> set s"
  shows "\<forall>s\<in>set (foldl (norm_step False) acc segs). ordinary_segment s"
  using assms
proof (induction segs arbitrary: acc)
  case Nil
  then show ?case by simp
next
  case (Cons x xs)
  have "\<forall>s\<in>set (norm_step False acc x). ordinary_segment s"
    using Cons.prems by (auto simp: norm_step_def ordinary_segment_def dest: in_set_butlastD)
  then show ?case using Cons by simp
qed

lemma normalized_absolute_segments:
  assumes "normalized_absolute wd"
  obtains cs where "\<forall>s\<in>set cs. ordinary_segment s" "wd = CHR ''/'' # join_slash cs"
proof -
  let ?cs = "foldl (norm_step False) [] (split_on CHR ''/'' wd)"
  have "\<forall>s\<in>set ?cs. ordinary_segment s"
    by (rule foldl_norm_all_ordinary) (auto dest: split_on_segments_free)
  moreover have "wd = CHR ''/'' # join_slash ?cs"
    using assms by (simp add: normalized_absolute_def normalizeString_def)
  ultimately show ?thesis using that by blast
qed

section \<open>The extraction loop when every copy completes\<close>

lemma results_ok_on_entry:
  assumes ok: "results_ok d st ps"
    and io: "entry_decision (fileName e) = Keep \<longrightarrow> io e = WriteOk"
  shows "\<exists>ps'. results_ok d (on_entry d st e) ps'"
proof (cases "fileName e \<notin> set (processedEntries st) \<and> entry_decision (fileName e) = Keep")
  case True
  then have kept: "entry_decision (fileName e) = Keep" and new: "fileName e \<notin> set (processedEntries st)"
    and wok: "io e = WriteOk" using io by simp_all
  let ?p = "destination d (disk st) e"
  have dk: "disk (on_entry d st e) = write_file (disk st) ?p (content e)"
    and wp: "writePromises (on_entry d st e) = writePromises st @ [Some ?p]"
    using on_entry_kept_ok[OF kept new wok] by simp_all
  have fresh: "?p \<notin> set ps"
    using ok destination_free[of "disk st" d e] by (auto simp: results_ok_def)
  have plain: "\<not> endsWith ?p ''/''" by (rule destination_plain[OF kept])
  have free: "\<not> existsSync (disk st) ?p" by (rule destination_free)
  have new_ex: "existsSync (write_file (disk st) ?p (content e)) ?p"
    by (rule existsSync_write_file_same[OF plain])
  have old_ex: "existsSync (write_file (disk st) ?p (content e)) p" if "p \<in> set ps" for p
  proof -
    from ok that have "existsSync (disk st) p" by (simp add: results_ok_def)
    then show ?thesis using free plain by (rule existsSync_write_file_other)
  qed
  have "results_ok d (on_entry d st e) (ps @ [?p])"
    using ok fresh destination_form[OF kept, of d "disk st"] new_ex old_ex
    by (auto simp: results_ok_def dk wp)
  then show ?thesis by blast
next
  case False
  then have "fileName e \<in> set (processedEntries st) \<or> entry_decision (fileName e) \<noteq> Keep" by blast
  then have same: "disk (on_entry d st e) = disk st \<and> writePromises (on_entry d st e) = writePromises st"
    using on_entry_seen[of e st d] on_entry_not_kept[of e d st] by auto
  then have "results_ok d (on_entry d st e) ps"
    using ok by (simp add: results_ok_def)
  then show ?thesis by blast
qed

lemma results_ok_foldl:
  assumes "results_ok d st ps"
    and "\<forall>e\<in>set es. entry_decision (fileName e) = Keep \<longrightarrow> io e = WriteOk"
  shows "\<exists>ps'. results_ok d (foldl (on_entry d) st es) ps'"
  using assms
proof (induction es arbitrary: st ps)
  case Nil
  then show ?case by auto
next
  case (Cons e es)
  from Cons.prems obtain ps1 where "results_ok d (on_entry d st e) ps1"
    using results_ok_on_entry[of d st ps e] by auto
  with Cons show ?case by simp
qed

lemma length_writePromises_on_entry:
  "length (writePromises (on_entry d st e)) =
     length (writePromises st) +
     (if fileName e \<notin> set (processedEntries st) \<and> entry_decision (fileName e) = Keep then 1 else 0)"
  by (auto simp: on_entry_def write_entry_def Let_def split: decision.splits io_outcome.splits)

lemma length_writePromises_foldl:
  "length (writePromises (foldl (on_entry d) st es)) =
     length (writePromises st) +
     card ({n \<in> fileName ` set es. entry_decision n = Keep} - set (processedEntries st))"
proof (induction es arbitrary: st)
  case Nil
  show ?case by simp
next
  case (Cons e es)
  let ?K = "\<lambda>es. {n \<in> fileName ` set es. entry_decision n = Keep}"
  let ?P = "set (processedEntries st)"
  let ?st1 = "on_entry d st e"
  have IH: "length (writePromises (foldl (on_entry d) ?st1 es)) =
            length (writePromises ?st1) + card (?K es - insert (fileName e) ?P)"
    using Cons.IH[of ?st1] by (simp add: processedEntries_on_entry)
  have fin: "finite (?K es)" by simp
  have "card (?K (e # es) - ?P) =
        (if fileName e \<notin> ?P \<and> entry_decision (fileName e) = Keep then 1 else 0)
        + card (?K es - insert (fileName e) ?P)"
  proof (cases "fileName e \<in> ?P")
    case True
    then have "?K (e # es) - ?P = ?K es - insert (fileName e) ?P" by auto
    with True show ?thesis by simp
  next
    case False
    show ?thesis
    proof (cases "entry_decision (fileName e) = Keep")
      case True
      have eq: "?K (e # es) - ?P = insert (fileName e) (?K es - insert (fileName e) ?P)"
        using True False by auto
      have nin: "fileName e \<notin> ?K es - insert (fileName e) ?P" by simp
      have fin': "finite (?K es - insert (fileName e) ?P)" using fin by simp
      have "card (insert (fileName e) (?K es - insert (fileName e) ?P))
            = Suc (card (?K es - insert (fileName e) ?P))"
        using fin' nin by (rule card_insert_disjoint)
      then have "card (?K (e # es) - ?P) = Suc (card (?K es - insert (fileName e) ?P))"
        by (simp only: eq)
      with True False show ?thesis by simp
    next
      case F2: False
      then have "?K (e # es) - ?P = ?K es - insert (fileName e) ?P" by auto
      with F2 show ?thesis by simp
    qed
  qed
  with IH show ?case by (simp add: length_writePromises_on_entry)
qed

lemma length_qualifying_names:
  "length (qualifying_names es) = card {n \<in> fileName ` set es. entry_decision n = Keep}"
proof -
  have "set (filter (\<lambda>n. entry_decision n = Keep) (map fileName es))
        = {n \<in> fileName ` set es. entry_decision n = Keep}" by auto
  then show ?thesis by (simp add: qualifying_names_def length_remdups_card_conv)
qed

lemma extract_entries_results:
  assumes "\<forall>e\<in>set es. entry_decision (fileName e) = Keep \<longrightarrow> io e = WriteOk"
  obtains ps where "results_ok d (extract_entries d fs es) ps" "length ps = length (qualifying_names es)"
proof -
  have "results_ok d \<lparr>disk = fs, processedEntries = [], writePromises = []\<rparr> []"
    by (simp add: results_ok_def)
  from results_ok_foldl[OF this assms] obtain ps where ok: "results_ok d (extract_entries d fs es) ps"
    by (auto simp: extract_entries_def)
  have "length (writePromises (extract_entries d fs es)) = length (qualifying_names es)"
    using length_writePromises_foldl[of d "\<lparr>disk = fs, processedEntries = [], writePromises = []\<rparr>" es]
    by (simp add: extract_entries_def length_qualifying_names)
  moreover have "length (writePromises (extract_entries d fs es)) = length ps"
    using ok by (simp add: results_ok_def)
  ultimately show ?thesis using ok that by simp
qed

section \<open>Locations and addresses below the upload directory\<close>

lemma ordinary_uploads: "ordinary_segment ''uploads''"
  by (simp add: ordinary_segment_def)

lemma ordinary_temp: "ordinary_segment ''temp''"
  by (simp add: ordinary_segment_def)

lemma ordinary_extract: "ordinary_segment (''extract_'' @ num_str n)"
  using num_str_no_slash[of n] by (simp add: ordinary_segment_def)

lemma ordinary_upload_zip: "ordinary_segment (''upload_'' @ num_str n @ ''.zip'')"
  using num_str_no_slash[of n] by (simp add: ordinary_segment_def)

lemma extractDir_plain: "extractDir ev \<noteq> []" "\<not> endsWith (extractDir ev) ''/''"
proof -
  have "extractDir ev = join_prefix (UPLOAD_DIR (cwd ev)) @ ''extract_'' @ num_str (now_dir ev)"
    unfolding extractDir_def by (rule path_join_leaf[OF ordinary_extract])
  then show "extractDir ev \<noteq> []" "\<not> endsWith (extractDir ev) ''/''"
    using ordinary_no_trailing[OF ordinary_extract, of "join_prefix (UPLOAD_DIR (cwd ev))" "now_dir ev"]
    by simp_all
qed

lemma tempZipPath_plain: "tempZipPath ev \<noteq> []" "\<not> endsWith (tempZipPath ev) ''/''"
proof -
  have "tempZipPath ev = join_prefix (TEMP_DIR (cwd ev)) @ ''upload_'' @ num_str (now_zip ev) @ ''.zip''"
    unfolding tempZipPath_def by (rule path_join_leaf[OF ordinary_upload_zip])
  then show "tempZipPath ev \<noteq> []" "\<not> endsWith (tempZipPath ev) ''/''"
    using ordinary_no_trailing[OF ordinary_upload_zip, of "join_prefix (TEMP_DIR (cwd ev))" "now_zip ev"]
    by simp_all
qed

lemma drop_common_prefix: "drop_common a (a @ b) = ([], b)"
  by (induction a) simp_all

lemma abs_path_inject:
  assumes "\<forall>s\<in>set a. ordinary_segment s" "\<forall>s\<in>set b. ordinary_segment s"
    and "CHR ''/'' # join_slash a = CHR ''/'' # join_slash b"
  shows "a = b"
proof -
  have "a = path_segments (CHR ''/'' # join_slash a)"
    using path_segments_abs[OF assms(1)] by (rule sym)
  also have "\<dots> = path_segments (CHR ''/'' # join_slash b)"
    by (simp only: assms(3))
  also have "\<dots> = b" by (rule path_segments_abs[OF assms(2)])
  finally show ?thesis .
qed

lemma path_relative_below:
  assumes a: "\<forall>s\<in>set a. ordinary_segment s" and b: "\<forall>s\<in>set b. ordinary_segment s" and ne: "b \<noteq> []"
  shows "path_relative wd (CHR ''/'' # join_slash a) (CHR ''/'' # join_slash (a @ b)) = join_slash b"
proof -
  have ab: "\<forall>s\<in>set (a @ b). ordinary_segment s" using a b by auto
  have "CHR ''/'' # join_slash a \<noteq> CHR ''/'' # join_slash (a @ b)"
    using abs_path_inject[OF a ab] ne by auto
  then show ?thesis
    by (simp add: path_relative_def path_resolve_abs[OF a] path_resolve_abs[OF ab]
                  path_segments_abs[OF a] path_segments_abs[OF ab] drop_common_prefix)
qed

lemma map_backslash_inject:
  assumes "CHR ''/'' \<notin> set s" "CHR ''/'' \<notin> set t"
    and "map (\<lambda>c. if c = CHR 0x5C then CHR ''/'' else c) s = map (\<lambda>c. if c = CHR 0x5C then CHR ''/'' else c) t"
  shows "s = t"
  using assms
proof (induction s arbitrary: t)
  case Nil
  then show ?case by simp
next
  case (Cons x xs)
  then obtain y ys where t: "t = y # ys" by (cases t) auto
  with Cons.prems have "x = y" by (auto split: if_splits)
  with Cons t show ?case by auto
qed

lemma append_le_append_iff: "(p @ s \<le> p @ t) = (s \<le> (t :: 'a::linorder list))"
  by (induction p) simp_all

lemma successfulFiles_Some [simp]: "successfulFiles (map Some ps) = ps"
  by (induction ps) (simp_all add: successfulFiles_def)

lemma array_from_set_distinct: "distinct xs \<Longrightarrow> array_from_set xs = xs"
  by (simp add: array_from_set_first_occurrences first_occurrences_distinct)

lemma UPLOAD_DIR_abs:
  assumes "\<forall>s\<in>set cs. ordinary_segment s"
  shows "UPLOAD_DIR (CHR ''/'' # join_slash cs) = CHR ''/'' # join_slash (cs @ [''uploads''])"
  unfolding UPLOAD_DIR_def by (rule path_join_abs[OF assms ordinary_uploads])

lemma TEMP_DIR_abs:
  assumes "\<forall>s\<in>set cs. ordinary_segment s"
  shows "TEMP_DIR (CHR ''/'' # join_slash cs) = CHR ''/'' # join_slash (cs @ [''temp''])"
  unfolding TEMP_DIR_def by (rule path_join_abs[OF assms ordinary_temp])

lemma extractDir_abs:
  assumes cs: "\<forall>s\<in>set cs. ordinary_segment s" and wd: "cwd ev = CHR ''/'' # join_slash cs"
  shows "extractDir ev = CHR ''/'' # join_slash (cs @ [''uploads'', ''extract_'' @ num_str (now_dir ev)])"
proof -
  have up: "\<forall>s\<in>set (cs @ [''uploads'']). ordinary_segment s"
    using cs ordinary_uploads by auto
  have "extractDir ev = path_join [CHR ''/'' # join_slash (cs @ [''uploads'']), ''extract_'' @ num_str (now_dir ev)]"
    unfolding extractDir_def wd UPLOAD_DIR_abs[OF cs] ..
  also have "\<dots> = CHR ''/'' # join_slash ((cs @ [''uploads'']) @ [''extract_'' @ num_str (now_dir ev)])"
    by (rule path_join_abs[OF up ordinary_extract])
  finally show ?thesis by simp
qed

lemma tempZipPath_abs:
  assumes cs: "\<forall>s\<in>set cs. ordinary_segment s" and wd: "cwd ev = CHR ''/'' # join_slash cs"
  shows "tempZipPath ev = CHR ''/'' # join_slash (cs @ [''temp'', ''upload_'' @ num_str (now_zip ev) @ ''.zip''])"
proof -
  have up: "\<forall>s\<in>set (cs @ [''temp'']). ordinary_segment s"
    using cs ordinary_temp by auto
  have "tempZipPath ev = path_join [CHR ''/'' # join_slash (cs @ [''temp'']), ''upload_'' @ num_str (now_zip ev) @ ''.zip'']"
    unfolding tempZipPath_def wd TEMP_DIR_abs[OF cs] ..
  also have "\<dots> = CHR ''/'' # join_slash ((cs @ [''temp'']) @ [''upload_'' @ num_str (now_zip ev) @ ''.zip''])"
    by (rule path_join_abs[OF up ordinary_upload_zip])
  finally show ?thesis by simp
qed

lemma join_prefix_leaf_abs:
  assumes ds: "\<forall>s\<in>set ds. ordinary_segment s" and ne: "ds \<noteq> []"
  shows "join_prefix (CHR ''/'' # join_slash ds) @ s = CHR ''/'' # join_slash (ds @ [s])"
  using ne by (simp add: join_prefix_abs[OF ds] join_slash_snoc)

lemma path_segments_append_slash:
  "path_segments (a @ CHR ''/'' # b) = path_segments a @ path_segments b"
  by (simp add: path_segments_def split_on_append)

lemma startsWith_append: "startsWith p q \<Longrightarrow> \<exists>r. p = q @ r"
  by (metis startsWith_def append_take_drop_id)

text \<open>A location directly inside the session directory.\<close>

lemma relative_of_location:
  assumes cs: "\<forall>s\<in>set cs. ordinary_segment s" and x: "ordinary_segment x" and s: "ordinary_segment s"
  shows "path_relative wd (CHR ''/'' # join_slash (cs @ [''uploads'']))
           (CHR ''/'' # join_slash (cs @ [''uploads'', x, s])) = x @ CHR ''/'' # s"
proof -
  have a: "\<forall>t\<in>set (cs @ [''uploads'']). ordinary_segment t" using cs ordinary_uploads by auto
  have b: "\<forall>t\<in>set [x, s]. ordinary_segment t" using x s by simp
  from path_relative_below[OF a b, of wd] show ?thesis by simp
qed

lemma location_not_staging:
  assumes cs: "\<forall>s\<in>set cs. ordinary_segment s" and x: "ordinary_segment x" and s: "ordinary_segment s"
    and z: "ordinary_segment z"
  shows "CHR ''/'' # join_slash (cs @ [''uploads'', x, s]) \<noteq> CHR ''/'' # join_slash (cs @ [''temp'', z])"
    and "\<not> startsWith (CHR ''/'' # join_slash (cs @ [''uploads'', x, s]))
                       ((CHR ''/'' # join_slash (cs @ [''temp'', z])) @ ''/'')"
proof -
  let ?p = "CHR ''/'' # join_slash (cs @ [''uploads'', x, s])"
  let ?t = "CHR ''/'' # join_slash (cs @ [''temp'', z])"
  have a: "\<forall>t\<in>set (cs @ [''uploads'', x, s]). ordinary_segment t"
    using cs x s ordinary_uploads by auto
  have b: "\<forall>t\<in>set (cs @ [''temp'', z]). ordinary_segment t"
    using cs z ordinary_temp by auto
  have sp: "path_segments ?p = cs @ [''uploads'', x, s]" by (rule path_segments_abs[OF a])
  have st: "path_segments ?t = cs @ [''temp'', z]" by (rule path_segments_abs[OF b])
  show "?p \<noteq> ?t"
  proof
    assume "?p = ?t"
    then have "path_segments ?p = path_segments ?t" by (rule arg_cong)
    then show False unfolding sp st by simp
  qed
  show "\<not> startsWith ?p (?t @ ''/'')"
  proof
    assume "startsWith ?p (?t @ ''/'')"
    then obtain r where r: "?p = (?t @ ''/'') @ r" using startsWith_append by blast
    have "(?t @ ''/'') @ r = ?t @ CHR ''/'' # r" by simp
    with r have "?p = ?t @ CHR ''/'' # r" by (rule trans)
    then have "path_segments ?p = path_segments (?t @ CHR ''/'' # r)" by (rule arg_cong)
    then have "cs @ [''uploads'', x, s] = (cs @ [''temp'', z]) @ path_segments r"
      unfolding path_segments_append_slash sp st .
    then show False by simp
  qed
qed

lemma image_url_location:
  assumes cs: "\<forall>s\<in>set cs. ordinary_segment s" and x: "ordinary_segment x" and s: "ordinary_segment s"
    and hx: "hd x \<noteq> CHR 0x5C"
  shows "image_url (CHR ''/'' # join_slash cs) (CHR ''/'' # join_slash (cs @ [''uploads'', x, s]))
         = ''/api/images/'' @ map (\<lambda>c. if c = CHR 0x5C then CHR ''/'' else c) x
             @ CHR ''/'' # map (\<lambda>c. if c = CHR 0x5C then CHR ''/'' else c) s"
proof -
  from x obtain c x' where xc: "x = c # x'" and c: "c \<noteq> CHR ''/''"
    by (cases x) (auto simp: ordinary_segment_def)
  from hx xc have c': "c \<noteq> CHR 0x5C" by simp
  show ?thesis
    unfolding image_url_def UPLOAD_DIR_abs[OF cs] relative_of_location[OF cs x s]
    using c c' by (simp add: xc startsWith_def)
qed

section \<open>The claims\<close>

text \<open>
  C1. The image route answers 403 for locations outside the upload directory. Its check
  compares the resolved path with the resolved upload directory as strings, by prefix,
  so a sibling directory whose name merely starts with \<open>uploads\<close> passes it: at the
  segments \<open>..\<close>, \<open>uploads_evil\<close>, \<open>x.jpg\<close> the route serves the bytes of a file that
  is not below the storage root.
\<close>

theorem GET_serves_sibling_of_upload_dir:
  "GET ''/app'' [(''/app/uploads'', Dir), (''/app/uploads_evil/x.jpg'', File ''secret'')]
       [''..'', ''uploads_evil'', ''x.jpg''] = Body ''secret'' ''image/jpeg''"
  by code_simp

text \<open>
  C2, amended. The extractor tolerates the failure of a single entry: the entry is left
  out of the result and the upload goes on. So the number of addresses is the number
  \<open>N\<close> of qualifying names only when every kept entry is copied completely. Under
  that condition, when the working directory is an absolute path in normal form, the
  archive opens and ends without error, staging and directory creation succeed, and
  \<open>N\<close> is between 1 and 100, the upload route succeeds with \<open>N\<close> pairwise different
  addresses; they are the addresses of \<open>N\<close> locations that exist afterwards, listed
  in lexicographic order of their paths relative to the upload directory.
\<close>

theorem upload_returns_one_address_per_image:
  assumes wd: "normalized_absolute (cwd ev)"
    and zip: "endsWith (name f) ''.zip''"
    and arch: "archive f = ZipEntries es None"
    and w: "writeFile_error ev = None"
    and m: "mkdir_error ev = None"
    and io: "\<forall>e\<in>set es. entry_decision (fileName e) = Keep \<longrightarrow> io e = WriteOk"
    and lo: "1 \<le> length (qualifying_names es)"
    and hi: "length (qualifying_names es) \<le> 100"
  shows "\<exists>locs fs'.
           POST ev fs (Some f) = (Uploaded (map (image_url (cwd ev)) locs) (extractDir ev), fs')
         \<and> length locs = length (qualifying_names es)
         \<and> distinct (map (image_url (cwd ev)) locs)
         \<and> sorted (map (path_relative (cwd ev) (UPLOAD_DIR (cwd ev))) locs)
         \<and> (\<forall>p\<in>set locs. existsSync fs' p)"
proof -
  let ?bs = "\<lambda>c. if c = CHR 0x5C then CHR ''/'' else c"
  let ?x = "''extract_'' @ num_str (now_dir ev)"
  let ?z = "''upload_'' @ num_str (now_zip ev) @ ''.zip''"
  from wd obtain cs where cs: "\<forall>s\<in>set cs. ordinary_segment s" and cwd: "cwd ev = CHR ''/'' # join_slash cs"
    by (rule normalized_absolute_segments)
  have D: "extractDir ev = CHR ''/'' # join_slash (cs @ [''uploads'', ?x])"
    by (rule extractDir_abs[OF cs cwd])
  have T: "tempZipPath ev = CHR ''/'' # join_slash (cs @ [''temp'', ?z])"
    by (rule tempZipPath_abs[OF cs cwd])
  have U: "UPLOAD_DIR (cwd ev) = CHR ''/'' # join_slash (cs @ [''uploads''])"
    unfolding cwd by (rule UPLOAD_DIR_abs[OF cs])
  have ds: "\<forall>s\<in>set (cs @ [''uploads'', ?x]). ordinary_segment s"
    using cs ordinary_uploads ordinary_extract[of "now_dir ev"] by auto
  have x: "ordinary_segment ?x" by (rule ordinary_extract)
  have z: "ordinary_segment ?z" by (rule ordinary_upload_zip)
  have hx: "hd ?x \<noteq> CHR 0x5C" by simp
  let ?fs2 = "mkdir (write_file fs (tempZipPath ev) (data f)) (extractDir ev)"
  let ?st = "extract_entries (extractDir ev) ?fs2 es"
  from extract_entries_results[OF io, of "extractDir ev" ?fs2]
  obtain ps where ok: "results_ok (extractDir ev) ?st ps"
    and len: "length ps = length (qualifying_names es)" by blast
  from ok have wp: "writePromises ?st = map Some ps" and dist: "distinct ps"
    and ex: "\<forall>p\<in>set ps. existsSync (disk ?st) p"
    and form0: "\<forall>p\<in>set ps. \<exists>s. ordinary_segment s \<and> p = join_prefix (extractDir ev) @ s"
    by (auto simp: results_ok_def)
  have form: "\<exists>s. ordinary_segment s \<and> p = CHR ''/'' # join_slash (cs @ [''uploads'', ?x, s])"
    if "p \<in> set ps" for p
  proof -
    from form0 that obtain s where s: "ordinary_segment s" "p = join_prefix (extractDir ev) @ s"
      by blast
    have "join_prefix (CHR ''/'' # join_slash (cs @ [''uploads'', ?x])) @ s
          = CHR ''/'' # join_slash ((cs @ [''uploads'', ?x]) @ [s])"
      by (rule join_prefix_leaf_abs[OF ds]) simp
    with s show ?thesis unfolding D by auto
  qed
  have rel: "\<exists>s. ordinary_segment s \<and> p = CHR ''/'' # join_slash (cs @ [''uploads'', ?x, s])
               \<and> path_relative (cwd ev) (UPLOAD_DIR (cwd ev)) p = ?x @ CHR ''/'' # s
               \<and> image_url (cwd ev) p = ''/api/images/'' @ map ?bs ?x @ CHR ''/'' # map ?bs s"
    if "p \<in> set ps" for p
  proof -
    from form[OF that] obtain s where s: "ordinary_segment s"
      "p = CHR ''/'' # join_slash (cs @ [''uploads'', ?x, s])" by blast
    have "path_relative (cwd ev) (UPLOAD_DIR (cwd ev)) p = ?x @ CHR ''/'' # s"
      unfolding U s(2) by (rule relative_of_location[OF cs x s(1)])
    moreover have "image_url (cwd ev) p = ''/api/images/'' @ map ?bs ?x @ CHR ''/'' # map ?bs s"
      unfolding cwd s(2) by (rule image_url_location[OF cs x s(1) hx])
    ultimately show ?thesis using s by blast
  qed
  have inj: "inj_on (image_url (cwd ev)) (set ps)"
  proof (rule inj_onI)
    fix p q assume p: "p \<in> set ps" and q: "q \<in> set ps"
      and eq: "image_url (cwd ev) p = image_url (cwd ev) q"
    from rel[OF p] obtain s where s: "ordinary_segment s"
      "p = CHR ''/'' # join_slash (cs @ [''uploads'', ?x, s])"
      "image_url (cwd ev) p = ''/api/images/'' @ map ?bs ?x @ CHR ''/'' # map ?bs s" by blast
    from rel[OF q] obtain t where t: "ordinary_segment t"
      "q = CHR ''/'' # join_slash (cs @ [''uploads'', ?x, t])"
      "image_url (cwd ev) q = ''/api/images/'' @ map ?bs ?x @ CHR ''/'' # map ?bs t" by blast
    from eq have "map ?bs s = map ?bs t" unfolding s(3) t(3) by simp
    moreover have "CHR ''/'' \<notin> set s" "CHR ''/'' \<notin> set t"
      using s(1) t(1) by (simp_all add: ordinary_segment_def)
    ultimately have "s = t" using map_backslash_inject by blast
    with s(2) t(2) show "p = q" by simp
  qed
  let ?locs = "sort ps"
  have set_locs: "set ?locs = set ps" by simp
  have dist_locs: "distinct ?locs" using dist by simp
  have u1: "array_from_set ?locs = ?locs" by (rule array_from_set_distinct[OF dist_locs])
  have u2: "filter (existsSync (disk ?st)) ?locs = ?locs"
    using ex by (auto intro: filter_True)
  have dist_urls: "distinct (map (image_url (cwd ev)) ?locs)"
    using dist_locs inj by (simp add: distinct_map)
  have u3: "array_from_set (map (image_url (cwd ev)) ?locs) = map (image_url (cwd ev)) ?locs"
    by (rule array_from_set_distinct[OF dist_urls])
  have ez: "extractZip (archive f) (extractDir ev) ?fs2 = (Inr ps, disk ?st)"
    using dist by (simp add: extractZip_def arch Let_def wp array_from_set_distinct)
  let ?fs' = "fs_remove (disk ?st) (tempZipPath ev)"
  have post: "POST ev fs (Some f) = (Uploaded (map (image_url (cwd ev)) ?locs) (extractDir ev), ?fs')"
  proof -
    have ne: "ps \<noteq> []" using lo len by auto
    have le: "\<not> 100 < length ps" using hi len by simp
    show ?thesis
      using zip w m ne le by (simp add: POST_def Let_def ez u1 u2 u3)
  qed
  have srt: "sorted (map (path_relative (cwd ev) (UPLOAD_DIR (cwd ev))) ?locs)"
  proof -
    have "sorted_wrt (\<le>) ?locs" by simp
    then have "sorted_wrt (\<lambda>p q. path_relative (cwd ev) (UPLOAD_DIR (cwd ev)) p
                              \<le> path_relative (cwd ev) (UPLOAD_DIR (cwd ev)) q) ?locs"
    proof (rule sorted_wrt_mono_rel[rotated])
      fix p q assume p: "p \<in> set ?locs" and q: "q \<in> set ?locs" and le: "p \<le> q"
      from rel[of p] p obtain s where s:
        "p = CHR ''/'' # join_slash (cs @ [''uploads'', ?x, s])"
        "path_relative (cwd ev) (UPLOAD_DIR (cwd ev)) p = ?x @ CHR ''/'' # s" by auto
      from rel[of q] q obtain t where t:
        "q = CHR ''/'' # join_slash (cs @ [''uploads'', ?x, t])"
        "path_relative (cwd ev) (UPLOAD_DIR (cwd ev)) q = ?x @ CHR ''/'' # t" by auto
      have ps: "p = (CHR ''/'' # join_slash (cs @ [''uploads'', ?x]) @ ''/'') @ s"
        unfolding s(1) using join_slash_snoc[of "cs @ [''uploads'', ?x]" s] by simp
      have qt: "q = (CHR ''/'' # join_slash (cs @ [''uploads'', ?x]) @ ''/'') @ t"
        unfolding t(1) using join_slash_snoc[of "cs @ [''uploads'', ?x]" t] by simp
      from le have "s \<le> t" unfolding ps qt by (simp only: append_le_append_iff)
      then have "(?x @ ''/'') @ s \<le> (?x @ ''/'') @ t" by (simp only: append_le_append_iff)
      then show "path_relative (cwd ev) (UPLOAD_DIR (cwd ev)) p
                 \<le> path_relative (cwd ev) (UPLOAD_DIR (cwd ev)) q"
        unfolding s(2) t(2) by simp
    qed
    then show ?thesis by (simp add: sorted_map)
  qed
  have kept: "\<forall>p\<in>set ?locs. existsSync ?fs' p"
  proof
    fix p assume "p \<in> set ?locs"
    then have p: "p \<in> set ps" by simp
    from form[OF p] obtain s where s: "ordinary_segment s"
      "p = CHR ''/'' # join_slash (cs @ [''uploads'', ?x, s])" by blast
    have "p \<noteq> tempZipPath ev" "\<not> startsWith p (tempZipPath ev @ ''/'')"
      unfolding T s(2) by (rule location_not_staging[OF cs x s(1) z])+
    moreover from form0 p obtain t where "ordinary_segment t" "p = join_prefix (extractDir ev) @ t"
      by blast
    then have "\<not> endsWith p ''/''" by (simp add: ordinary_no_trailing)
    ultimately show "existsSync ?fs' p" using ex p by (simp add: existsSync_fs_remove_plain)
  qed
  from post len dist_urls srt kept show ?thesis
    by (intro exI[of _ ?locs] exI[of _ ?fs']) simp
qed

theorem upload_returns_one_address_per_image_witness:
  "length (qualifying_names scenario_entries) = 3
   \<and> POST scenario_env scenario_disk (Some scenario_upload)
     = (Uploaded [''/api/images/extract_8/a.jpg'', ''/api/images/extract_8/a_1.jpg'',
                  ''/api/images/extract_8/b.png'']
          ''/app/uploads/extract_8'',
        [(''/app/uploads/extract_8/a_1.jpg'', File ''2''),
         (''/app/uploads/extract_8/a.jpg'', File ''1''),
         (''/app/uploads/extract_8/b.png'', File ''3''),
         (''/app/uploads/extract_8'', Dir), (''/app/uploads'', Dir), (''/app/temp'', Dir)])
   \<and> (\<exists>locs fs'.
         POST scenario_env scenario_disk (Some scenario_upload)
         = (Uploaded (map (image_url ''/app'') locs) ''/app/uploads/extract_8'', fs')
       \<and> length locs = 3
       \<and> distinct (map (image_url ''/app'') locs)
       \<and> sorted (map (path_relative ''/app'' (UPLOAD_DIR ''/app'')) locs))"
proof -
  have c: "cwd scenario_env = ''/app''" by (simp add: scenario_env_def)
  have h1: "normalized_absolute (cwd scenario_env)" by code_simp
  have h2: "endsWith (name scenario_upload) ''.zip''" by code_simp
  have h3: "archive scenario_upload = ZipEntries scenario_entries None"
    by (simp add: scenario_upload_def)
  have h4: "writeFile_error scenario_env = None" by (simp add: scenario_env_def)
  have h5: "mkdir_error scenario_env = None" by (simp add: scenario_env_def)
  have h6: "\<forall>e\<in>set scenario_entries. entry_decision (fileName e) = Keep \<longrightarrow> io e = WriteOk"
    by (simp add: scenario_entries_def)
  have n: "length (qualifying_names scenario_entries) = 3" by code_simp
  have h7: "1 \<le> length (qualifying_names scenario_entries)" unfolding n by simp
  have h8: "length (qualifying_names scenario_entries) \<le> 100" unfolding n by simp
  have d: "extractDir scenario_env = ''/app/uploads/extract_8''" by code_simp
  have v: "POST scenario_env scenario_disk (Some scenario_upload)
     = (Uploaded [''/api/images/extract_8/a.jpg'', ''/api/images/extract_8/a_1.jpg'',
                  ''/api/images/extract_8/b.png'']
          ''/app/uploads/extract_8'',
        [(''/app/uploads/extract_8/a_1.jpg'', File ''2''),
         (''/app/uploads/extract_8/a.jpg'', File ''1''),
         (''/app/uploads/extract_8/b.png'', File ''3''),
         (''/app/uploads/extract_8'', Dir), (''/app/uploads'', Dir), (''/app/temp'', Dir)])"
    by code_simp
  from upload_returns_one_address_per_image[OF h1 h2 h3 h4 h5 h6 h7 h8, of scenario_disk]
  obtain locs fs' where
    "POST scenario_env scenario_disk (Some scenario_upload)
       = (Uploaded (map (image_url (cwd scenario_env)) locs) (extractDir scenario_env), fs')"
    "length locs = length (qualifying_names scenario_entries)"
    "distinct (map (image_url (cwd scenario_env)) locs)"
    "sorted (map (path_relative (cwd scenario_env) (UPLOAD_DIR (cwd scenario_env))) locs)"
    by blast
  then have "POST scenario_env scenario_disk (Some scenario_upload)
         = (Uploaded (map (image_url ''/app'') locs) ''/app/uploads/extract_8'', fs')
       \<and> length locs = 3
       \<and> distinct (map (image_url ''/app'') locs)
       \<and> sorted (map (path_relative ''/app'' (UPLOAD_DIR ''/app'')) locs)"
    unfolding n d c by simp
  with n v show ?thesis by blast
qed

text \<open>
  C2 as stated, without the condition on the copies, does not hold: a container with the
  two qualifying entries \<open>a.jpg\<close> and \<open>b.png\<close>, where the read stream of \<open>b.png\<close>
  cannot be opened (lines 405 to 410), is answered with one address.
\<close>

theorem upload_omits_entry_with_failed_stream:
  "length (qualifying_names
             [\<lparr>fileName = ''a.jpg'', content = ''1'', io = WriteOk\<rparr>,
              \<lparr>fileName = ''b.png'', content = ''2'', io = StreamOpenError\<rparr>]) = 2
   \<and> POST \<lparr>cwd = ''/app'', now_zip = 7, now_dir = 8, writeFile_error = None, mkdir_error = None\<rparr>
        [(''/app/uploads'', Dir), (''/app/temp'', Dir)]
        (Some \<lparr>name = ''pics.zip'', data = ''PK'',
               archive = ZipEntries
                 [\<lparr>fileName = ''a.jpg'', content = ''1'', io = WriteOk\<rparr>,
                  \<lparr>fileName = ''b.png'', content = ''2'', io = StreamOpenError\<rparr>] None\<rparr>)
     = (Uploaded [''/api/images/extract_8/a.jpg''] ''/app/uploads/extract_8'',
        [(''/app/uploads/extract_8/a.jpg'', File ''1''), (''/app/uploads/extract_8'', Dir),
         (''/app/uploads'', Dir), (''/app/temp'', Dir)])"
  by code_simp

text \<open>
  C3. When the archive cannot be opened, \<open>extractZip\<close> rejects and the handler's
  \<open>catch\<close> block answers 500 without removing anything: the staging file and the
  session directory are still on disk afterwards.
\<close>

theorem POST_corrupt_archive_keeps_session_state:
  "POST \<lparr>cwd = ''/app'', now_zip = 7, now_dir = 8, writeFile_error = None, mkdir_error = None\<rparr>
      [(''/app/uploads'', Dir), (''/app/temp'', Dir)]
      (Some \<lparr>name = ''pics.zip'', data = ''not a zip'', archive = ZipOpenError ''invalid archive''\<rparr>)
   = (Json 500 ''invalid archive'',
      [(''/app/uploads/extract_8'', Dir), (''/app/temp/upload_7.zip'', File ''not a zip''),
       (''/app/uploads'', Dir), (''/app/temp'', Dir)])"
  by code_simp



text \<open>
  C5. An entry whose name was already delivered earlier in the same extraction changes
  nothing: the extraction of a container with the later duplicate gives the same result,
  the same disk and the same outcome (resolved or rejected) as without it.
\<close>

theorem later_duplicate_entry_skipped:
  assumes "fileName e' = fileName e"
  shows "extractZip (ZipEntries (es1 @ e # es2 @ e' # es3) ending) d fs
       = extractZip (ZipEntries (es1 @ e # es2 @ es3) ending) d fs"
  using foldl_on_entry_duplicate[OF assms]
  by (simp add: extractZip_def extract_entries_def)

theorem later_duplicate_entry_skipped_witness:
  "extractZip (ZipEntries [\<lparr>fileName = ''a.jpg'', content = ''1'', io = WriteOk\<rparr>,
                           \<lparr>fileName = ''b.png'', content = ''2'', io = WriteOk\<rparr>,
                           \<lparr>fileName = ''a.jpg'', content = ''3'', io = WriteOk\<rparr>] None)
       ''/app/uploads/extract_8'' [(''/app/uploads/extract_8'', Dir)]
   = extractZip (ZipEntries [\<lparr>fileName = ''a.jpg'', content = ''1'', io = WriteOk\<rparr>,
                             \<lparr>fileName = ''b.png'', content = ''2'', io = WriteOk\<rparr>] None)
       ''/app/uploads/extract_8'' [(''/app/uploads/extract_8'', Dir)]"
  using later_duplicate_entry_skipped[of
      "\<lparr>fileName = ''a.jpg'', content = ''3'', io = WriteOk\<rparr>"
      "\<lparr>fileName = ''a.jpg'', content = ''1'', io = WriteOk\<rparr>"
      "[]" "[\<lparr>fileName = ''b.png'', content = ''2'', io = WriteOk\<rparr>]" "[]" None
      "''/app/uploads/extract_8''" "[(''/app/uploads/extract_8'', Dir)]"]
  by simp

text \<open>
  C6. The filter keeps an entry exactly when its name does not end in the separator, its
  extension is one of the six image extensions whatever the case, and its last path
  segment does not begin with \<open>._\<close>. An entry whose last segment begins with \<open>._\<close>
  writes nothing and adds no result.
\<close>

theorem entry_filter_keeps_iff:
  "(entry_decision n = Keep \<longleftrightarrow> spec_keeps n) \<and>
   (startsWith (last_segment (fileName e)) ''._'' \<longrightarrow>
      disk (on_entry d st e) = disk st \<and> writePromises (on_entry d st e) = writePromises st)"
proof -
  have "entry_decision (fileName e) \<noteq> Keep" if "startsWith (last_segment (fileName e)) ''._''"
    using that by (simp add: entry_decision_Keep spec_keeps_def)
  then show ?thesis using on_entry_not_kept entry_decision_Keep by blast
qed

theorem entry_filter_keeps_iff_witness:
  "startsWith (last_segment ''sub/._b.png'') ''._''
   \<and> entry_decision ''sub/B.PNG'' = Keep
   \<and> disk (on_entry ''/app/uploads/extract_8''
              \<lparr>disk = [], processedEntries = [], writePromises = []\<rparr>
              \<lparr>fileName = ''sub/._b.png'', content = ''x'', io = WriteOk\<rparr>) = []
   \<and> writePromises (on_entry ''/app/uploads/extract_8''
              \<lparr>disk = [], processedEntries = [], writePromises = []\<rparr>
              \<lparr>fileName = ''sub/._b.png'', content = ''x'', io = WriteOk\<rparr>) = []"
proof -
  have h: "startsWith (last_segment ''sub/._b.png'') ''._''" by code_simp
  have k: "spec_keeps ''sub/B.PNG''" by code_simp
  from entry_filter_keeps_iff[of "''sub/B.PNG''"
         "\<lparr>fileName = ''sub/._b.png'', content = ''x'', io = WriteOk\<rparr>"
         "''/app/uploads/extract_8''" "\<lparr>disk = [], processedEntries = [], writePromises = []\<rparr>"] h k
  show ?thesis by simp
qed

text \<open>
  C7. The upload route builds an address from the relative path as it is, without
  percent-encoding. For the entry \<open>a%41.jpg\<close> it returns an address with a raw \<open>%41\<close>;
  the classification route decodes that address and looks for \<open>aA.jpg\<close>, which does
  not exist, and the image route answers 404 for the decoded segments.
\<close>

theorem address_not_encoded_round_trip_fails:
  "POST \<lparr>cwd = ''/app'', now_zip = 7, now_dir = 8, writeFile_error = None, mkdir_error = None\<rparr>
      [(''/app/uploads'', Dir), (''/app/temp'', Dir)]
      (Some \<lparr>name = ''pics.zip'', data = ''PK'',
             archive = ZipEntries [\<lparr>fileName = ''a%41.jpg'', content = ''img'', io = WriteOk\<rparr>] None\<rparr>)
   = (Uploaded [''/api/images/extract_8/a%41.jpg''] ''/app/uploads/extract_8'',
      [(''/app/uploads/extract_8/a%41.jpg'', File ''img''), (''/app/uploads/extract_8'', Dir),
       (''/app/uploads'', Dir), (''/app/temp'', Dir)])
   \<and> getImageBase64 ''/app''
        [(''/app/uploads/extract_8/a%41.jpg'', File ''img''), (''/app/uploads/extract_8'', Dir),
         (''/app/uploads'', Dir), (''/app/temp'', Dir)]
        ''/api/images/extract_8/a%41.jpg''
      = Inl ''Image file not found: /app/uploads/extract_8/aA.jpg''
   \<and> decodeURIComponent ''a%41.jpg'' = Some ''aA.jpg''
   \<and> GET ''/app''
        [(''/app/uploads/extract_8/a%41.jpg'', File ''img''), (''/app/uploads/extract_8'', Dir),
         (''/app/uploads'', Dir), (''/app/temp'', Dir)]
        [''extract_8'', ''aA.jpg'']
      = Failed 404 ''File not found''"
  by code_simp

text \<open>
  C8. Whenever \<open>extractZip\<close> resolves, the list it resolves with has no duplicates and
  holds the successful locations in the order of their first occurrence.
\<close>

theorem extractZip_files_distinct:
  assumes "extractZip z extractTo fs = (Inr files, fs')"
  shows "distinct files \<and>
         (\<exists>es. z = ZipEntries es None \<and>
            files = first_occurrences (successfulFiles (writePromises (extract_entries extractTo fs es))))"
  using assms
  by (auto simp: extractZip_def Let_def array_from_set_first_occurrences distinct_first_occurrences
           split: zipfile.splits option.splits)

theorem extractZip_files_distinct_witness:
  "extractZip (ZipEntries [\<lparr>fileName = ''a.jpg'', content = ''1'', io = WriteOk\<rparr>,
                           \<lparr>fileName = ''sub/a.jpg'', content = ''2'', io = WriteOk\<rparr>,
                           \<lparr>fileName = ''a.jpg'', content = ''3'', io = WriteOk\<rparr>] None)
       ''/app/uploads/extract_8'' [(''/app/uploads/extract_8'', Dir)]
     = (Inr [''/app/uploads/extract_8/a.jpg'', ''/app/uploads/extract_8/a_1.jpg''],
        [(''/app/uploads/extract_8/a_1.jpg'', File ''2''), (''/app/uploads/extract_8/a.jpg'', File ''1''),
         (''/app/uploads/extract_8'', Dir)])
   \<and> distinct [''/app/uploads/extract_8/a.jpg'', ''/app/uploads/extract_8/a_1.jpg'']"
proof -
  have h: "extractZip (ZipEntries [\<lparr>fileName = ''a.jpg'', content = ''1'', io = WriteOk\<rparr>,
                           \<lparr>fileName = ''sub/a.jpg'', content = ''2'', io = WriteOk\<rparr>,
                           \<lparr>fileName = ''a.jpg'', content = ''3'', io = WriteOk\<rparr>] None)
       ''/app/uploads/extract_8'' [(''/app/uploads/extract_8'', Dir)]
     = (Inr [''/app/uploads/extract_8/a.jpg'', ''/app/uploads/extract_8/a_1.jpg''],
        [(''/app/uploads/extract_8/a_1.jpg'', File ''2''), (''/app/uploads/extract_8/a.jpg'', File ''1''),
         (''/app/uploads/extract_8'', Dir)])"
    by code_simp
  from extractZip_files_distinct[OF h] h show ?thesis by blast
qed

text \<open>
  C9. When the archive opens, staging and directory creation succeed and the filter
  keeps none of the entries, the upload route answers 400 with
  \<open>No images found in ZIP file\<close>, and afterwards neither the session directory, nor
  anything below it, nor the staging file exists.
\<close>

theorem no_images_fails_and_cleans_up:
  assumes zip: "endsWith (name f) ''.zip''"
    and arch: "archive f = ZipEntries es None"
    and w: "writeFile_error ev = None"
    and m: "mkdir_error ev = None"
    and none: "\<forall>e\<in>set es. entry_decision (fileName e) \<noteq> Keep"
  shows "\<exists>fs'. POST ev fs (Some f) = (Json 400 ''No images found in ZIP file'', fs')
           \<and> \<not> existsSync fs' (extractDir ev)
           \<and> (\<forall>q. startsWith q ((extractDir ev) @ ''/'') \<longrightarrow> \<not> existsSync fs' q)
           \<and> \<not> existsSync fs' (tempZipPath ev)"
proof -
  let ?fs2 = "mkdir (write_file fs (tempZipPath ev) (data f)) (extractDir ev)"
  have "writePromises (extract_entries (extractDir ev) ?fs2 es) = []"
    using foldl_on_entry_none_kept[OF none] by (simp add: extract_entries_def)
  then have ex: "extractZip (archive f) (extractDir ev) ?fs2 = (Inr [], disk (extract_entries (extractDir ev) ?fs2 es))"
    by (simp add: extractZip_def arch Let_def successfulFiles_def array_from_set_def)
  let ?fs' = "fs_remove (fs_remove (disk (extract_entries (extractDir ev) ?fs2 es)) (extractDir ev)) (tempZipPath ev)"
  have "POST ev fs (Some f) = (Json 400 ''No images found in ZIP file'', ?fs')"
    using zip w m ex by (simp add: POST_def Let_def)
  moreover have "\<not> existsSync ?fs' (extractDir ev)"
    using not_existsSync_fs_remove[OF extractDir_plain, of "extractDir ev" ev]
          existsSync_fs_remove_sub by blast
  moreover have "\<forall>q. startsWith q ((extractDir ev) @ ''/'') \<longrightarrow> \<not> existsSync ?fs' q"
    using not_existsSync_fs_remove[OF extractDir_plain] existsSync_fs_remove_sub by blast
  moreover have "\<not> existsSync ?fs' (tempZipPath ev)"
    using not_existsSync_fs_remove[OF tempZipPath_plain, of "tempZipPath ev" ev] by blast
  ultimately show ?thesis by blast
qed

theorem no_images_fails_and_cleans_up_witness:
  "POST scenario_env scenario_disk (Some no_image_upload)
     = (Json 400 ''No images found in ZIP file'', [(''/app/uploads'', Dir), (''/app/temp'', Dir)])
   \<and> (\<exists>fs'. POST scenario_env scenario_disk (Some no_image_upload)
              = (Json 400 ''No images found in ZIP file'', fs')
            \<and> \<not> existsSync fs' ''/app/uploads/extract_8''
            \<and> \<not> existsSync fs' ''/app/temp/upload_7.zip'')"
proof -
  have h1: "endsWith (name no_image_upload) ''.zip''" by code_simp
  have h2: "archive no_image_upload = ZipEntries no_image_entries None"
    by (simp add: no_image_upload_def)
  have h3: "writeFile_error scenario_env = None" by (simp add: scenario_env_def)
  have h4: "mkdir_error scenario_env = None" by (simp add: scenario_env_def)
  have h5: "\<forall>e\<in>set no_image_entries. entry_decision (fileName e) \<noteq> Keep" by code_simp
  have d: "extractDir scenario_env = ''/app/uploads/extract_8''" by code_simp
  have t: "tempZipPath scenario_env = ''/app/temp/upload_7.zip''" by code_simp
  have v: "POST scenario_env scenario_disk (Some no_image_upload)
     = (Json 400 ''No images found in ZIP file'', [(''/app/uploads'', Dir), (''/app/temp'', Dir)])"
    by code_simp
  from no_images_fails_and_cleans_up[OF h1 h2 h3 h4 h5, of scenario_disk]
  have "\<exists>fs'. POST scenario_env scenario_disk (Some no_image_upload)
              = (Json 400 ''No images found in ZIP file'', fs')
            \<and> \<not> existsSync fs' ''/app/uploads/extract_8''
            \<and> \<not> existsSync fs' ''/app/temp/upload_7.zip''"
    unfolding d t by blast
  with v show ?thesis by blast
qed

text \<open>
  C10. The second limit check of the upload route (line 597) never fires: the list it
  inspects comes from the extracted files by sorting, deduplicating, filtering and
  mapping, none of which adds an element, and the first check has bounded the extracted
  files by 100. No request is answered with \<open>Too many images\<close>.
\<close>

theorem second_limit_check_unreachable:
  "fst (POST ev fs file) \<noteq> Json 400 ''Too many images''"
proof (cases "file")
  case None
  then show ?thesis by (simp add: POST_def)
next
  case (Some f)
  show ?thesis
  proof (cases "extractZip (archive f) (extractDir ev)
        (mkdir (write_file fs (tempZipPath ev) (data f)) (extractDir ev))")
    case (Pair r fs3)
    show ?thesis
    proof (cases r)
      case (Inl msg)
      with Some Pair show ?thesis
        by (simp add: POST_def Let_def split: option.splits)
    next
      case (Inr extractedFiles)
      have "\<not> 100 < length extractedFiles \<Longrightarrow>
            \<not> 100 < length (array_from_set (array_from_set (map (image_url (cwd ev))
                (filter (existsSync fs3) (array_from_set (sort extractedFiles))))))"
        using length_final_urls[of "image_url (cwd ev)" "existsSync fs3" extractedFiles] by simp
      with Some Pair Inr show ?thesis
        by (simp add: POST_def Let_def split: option.splits)
    qed
  qed
qed

end
